theory Spec2Isabelle
  imports Main "HOL-Library.Word" "HOL-Library.Signed_Division" "HOL-Library.While_Combinator"
begin

unbundle bit_operations_syntax

section \<open>Data model\<close>

text \<open>
  The C structures \<^verbatim>\<open>Etat\<close> (one state: the row \<^verbatim>\<open>f\<close> of \<^verbatim>\<open>na\<close> targets and the integer
  \<^verbatim>\<open>final\<close>) and \<^verbatim>\<open>Automate\<close> (the array \<^verbatim>\<open>e\<close> of states, the alphabet size \<^verbatim>\<open>na\<close>, the
  initial state \<^verbatim>\<open>i\<close>). Selectors carry the suffix \<open>_of\<close>. The state count \<^verbatim>\<open>n\<close> is the
  length of the state array. A target or an initial state equal to \<open>-1\<close> is absent.
\<close>

record Etat =
  f_of :: "int list"
  final_of :: int

record Automaton =
  e_of :: "Etat list"
  na_of :: nat
  i_of :: int

type_synonym Dict = "int list"

text \<open>Where a function receives pointers to automata, the automata live in a store, a
  function from addresses to automata.\<close>

type_synonym store = "nat \<Rightarrow> Automaton"

definition n_of :: "Automaton \<Rightarrow> nat" where
  "n_of a = length (e_of a)"

definition get_f :: "Automaton \<Rightarrow> nat \<Rightarrow> nat \<Rightarrow> int" where
  "get_f a s j = f_of (e_of a ! s) ! j"

definition get_final :: "Automaton \<Rightarrow> nat \<Rightarrow> int" where
  "get_final a s = final_of (e_of a ! s)"

definition set_f :: "Automaton \<Rightarrow> nat \<Rightarrow> nat \<Rightarrow> int \<Rightarrow> Automaton" where
  "set_f a s j v = a\<lparr>e_of := (e_of a)[s := (e_of a ! s)\<lparr>f_of := (f_of (e_of a ! s))[j := v]\<rparr>]\<rparr>"

definition set_final :: "Automaton \<Rightarrow> nat \<Rightarrow> int \<Rightarrow> Automaton" where
  "set_final a s v = a\<lparr>e_of := (e_of a)[s := (e_of a ! s)\<lparr>final_of := v\<rparr>]\<rparr>"

text \<open>Well-formed automata: every row has \<^verbatim>\<open>na\<close> entries, every target and the initial
  state are \<open>-1\<close> or a state index, and every finality field is \<open>0\<close> or \<open>1\<close>.\<close>

definition wf_rows :: "Automaton \<Rightarrow> bool" where
  "wf_rows a = (\<forall>s < n_of a. length (f_of (e_of a ! s)) = na_of a)"

definition wf_targets :: "Automaton \<Rightarrow> bool" where
  "wf_targets a = (\<forall>s < n_of a. \<forall>j < na_of a. -1 \<le> get_f a s j \<and> get_f a s j < int (n_of a))"

definition wf_init :: "Automaton \<Rightarrow> bool" where
  "wf_init a = (-1 \<le> i_of a \<and> i_of a < int (n_of a))"

definition wf_finals :: "Automaton \<Rightarrow> bool" where
  "wf_finals a = (\<forall>s < n_of a. get_final a s = 0 \<or> get_final a s = 1)"

definition wf :: "Automaton \<Rightarrow> bool" where
  "wf a = (wf_rows a \<and> wf_targets a \<and> wf_init a \<and> wf_finals a)"

section \<open>Allocation\<close>

text \<open>\<^verbatim>\<open>NewAutomaton\<close> allocates \<open>n\<close> rows of \<open>na\<close> cells and initialises nothing but the
  initial state of the empty automaton. The model fills the fresh memory with \<open>0\<close>; every
  caller below overwrites each cell before it is read.\<close>

definition NewAutomaton :: "nat \<Rightarrow> nat \<Rightarrow> Automaton" where
  "NewAutomaton n na =
     \<lparr>e_of = replicate n \<lparr>f_of = replicate na 0, final_of = 0\<rparr>, na_of = na,
      i_of = (if n = 0 then -1 else 0)\<rparr>"

definition init :: "Automaton \<Rightarrow> Automaton" where
  "init a = fold (\<lambda>s a. fold (\<lambda>j a. set_f a s j (-1)) [0..<na_of a] (set_final a s 0))
              [0..<n_of a] (a\<lparr>i_of := -1\<rparr>)"

definition AddEtat :: "Automaton \<Rightarrow> int \<Rightarrow> Automaton" where
  "AddEtat a final =
     (let a1 = a\<lparr>e_of := e_of a @ [\<lparr>f_of = replicate (na_of a) 0, final_of = 0\<rparr>]\<rparr>;
          last = n_of a1 - 1;
          a2 = fold (\<lambda>j a. set_f a last j (-1)) [0..<na_of a1] a1
      in set_final a2 last final)"

section \<open>Vertex deletion\<close>

text \<open>\<^verbatim>\<open>i + (i >= e)\<close>: a C comparison is \<open>1\<close> when true and \<open>0\<close> otherwise.\<close>

definition ge01 :: "int \<Rightarrow> int \<Rightarrow> int" where
  "ge01 x y = (if x \<ge> y then 1 else 0)"

definition DeleteVertex_cell :: "Automaton \<Rightarrow> int \<Rightarrow> nat \<Rightarrow> nat \<Rightarrow> int" where
  "DeleteVertex_cell a v s j =
     (let f = get_f a (nat (int s + ge01 (int s) v)) j
      in if f \<noteq> v then f - ge01 f v else -1)"

definition DeleteVertex :: "Automaton \<Rightarrow> int \<Rightarrow> Automaton" where
  "DeleteVertex a v =
     (let r = NewAutomaton (nat (int (n_of a) - 1)) (na_of a);
          r1 = fold (\<lambda>s r.
                  let r' = fold (\<lambda>j r. set_f r s j (DeleteVertex_cell a v s j)) [0..<na_of a] r
                  in set_final r' s (get_final a (nat (int s + ge01 (int s) v))))
                [0..<nat (int (n_of a) - 1)] r
      in r1\<lparr>i_of := i_of a - ge01 (i_of a) v\<rparr>)"

text \<open>\<^verbatim>\<open>DeleteVertexOP\<close> works in place: it decrements \<^verbatim>\<open>n\<close>, returns at once when no state is
  left (the initial state is then not touched), and otherwise shifts the rows down.\<close>

definition DeleteVertexOP :: "Automaton \<Rightarrow> int \<Rightarrow> Automaton" where
  "DeleteVertexOP a v =
     (let n' = int (n_of a) - 1 in
      if n' = 0 then a\<lparr>e_of := []\<rparr>
      else
        let a1 = fold (\<lambda>s a.
                   let a' = fold (\<lambda>j a. set_f a s j (DeleteVertex_cell a v s j)) [0..<na_of a] a
                   in set_final a' s (get_final a' (nat (int s + ge01 (int s) v))))
                 [0..<nat n'] a;
            a2 = a1\<lparr>e_of := take (nat n') (e_of a1)\<rparr>
        in if v = i_of a2 then a2\<lparr>i_of := -1\<rparr>
           else a2\<lparr>i_of := i_of a2 - ge01 (i_of a2) v\<rparr>)"


section \<open>Completion\<close>

text \<open>The body of the double loop of \<^verbatim>\<open>CompleteAutomaton\<close>: an absent target is redirected
  to the new state \<^verbatim>\<open>ne\<close> and the flag \<^verbatim>\<open>add_etat\<close> is raised.\<close>

definition Complete_cell :: "nat \<Rightarrow> nat \<Rightarrow> nat \<Rightarrow> Automaton \<times> bool \<Rightarrow> Automaton \<times> bool" where
  "Complete_cell ne s j = (\<lambda>(a, add_etat).
     if get_f a s j = -1 then (set_f a s j (int ne), True) else (a, add_etat))"

definition CompleteAutomaton :: "Automaton \<Rightarrow> bool \<times> Automaton" where
  "CompleteAutomaton a =
     (let ne = n_of a;
          (a1, add1) = fold (\<lambda>s st. fold (Complete_cell ne s) [0..<na_of (fst st)] st)
                         [0..<ne] (a, False);
          (a2, add2) = (if i_of a1 = -1 then (a1\<lparr>i_of := int ne\<rparr>, True) else (a1, add1))
      in if \<not> add2 then (False, a2)
         else
           let a3 = AddEtat a2 0;
               a4 = fold (\<lambda>j a. set_f a ne j (int ne)) [0..<na_of a3] a3;
               a5 = (if i_of a4 = -1 then a4\<lparr>i_of := int ne\<rparr> else a4)
           in (True, a5))"

text \<open>Something is missing in an automaton when a transition or the initial state is absent.\<close>

definition missing :: "Automaton \<Rightarrow> bool" where
  "missing a = ((\<exists>s < n_of a. \<exists>j < na_of a. get_f a s j = -1) \<or> i_of a = -1)"


section \<open>Runs and languages\<close>

text \<open>The state reached from \<open>s\<close> by a word; \<open>-1\<close> once a transition is absent.\<close>

fun run :: "Automaton \<Rightarrow> int \<Rightarrow> nat list \<Rightarrow> int" where
  "run a s [] = s"
| "run a s (c # w) = (if s = -1 then -1 else run a (get_f a (nat s) c) w)"

definition accepts :: "Automaton \<Rightarrow> nat list \<Rightarrow> bool" where
  "accepts a w = (let s = run a (i_of a) w in s \<noteq> -1 \<and> get_final a (nat s) \<noteq> 0)"

definition word_over :: "Automaton \<Rightarrow> nat list \<Rightarrow> bool" where
  "word_over a w = (\<forall>c \<in> set w. c < na_of a)"

definition Language :: "Automaton \<Rightarrow> nat list set" where
  "Language a = {w. word_over a w \<and> accepts a w}"

definition reachable_states :: "Automaton \<Rightarrow> int set" where
  "reachable_states a = {s. s \<noteq> -1 \<and> (\<exists>w. word_over a w \<and> run a (i_of a) w = s)}"

section \<open>Product\<close>

text \<open>\<^verbatim>\<open>contract\<close> packs a pair of indices; \<^verbatim>\<open>geti1\<close> and \<^verbatim>\<open>geti2\<close> unpack it with the C
  operators \<^verbatim>\<open>%\<close> and \<^verbatim>\<open>/\<close>, which truncate towards zero.\<close>

definition contract :: "int \<Rightarrow> int \<Rightarrow> int \<Rightarrow> int" where
  "contract i1 i2 n1 = i1 + n1 * i2"

definition geti1 :: "int \<Rightarrow> int \<Rightarrow> int" where
  "geti1 c n1 = c smod n1"

definition geti2 :: "int \<Rightarrow> int \<Rightarrow> int" where
  "geti2 c n1 = c sdiv n1"

text \<open>\<^verbatim>\<open>Product_rec\<close> explores the pairs of states depth first, marking a visited pair in
  the finality field of the result. The first argument bounds the depth of the recursion:
  the result is \<open>None\<close> when it is exceeded. The two loops over the letters of \<^verbatim>\<open>a1\<close> and \<^verbatim>\<open>a2\<close>
  are \<open>Product_loop_i\<close> and \<open>Product_loop_j\<close>.\<close>

function (sequential) Product_rec :: "nat \<Rightarrow> Automaton \<Rightarrow> int \<Rightarrow> int \<Rightarrow> Automaton \<Rightarrow> Automaton \<Rightarrow> Dict \<Rightarrow> Automaton option"
  and Product_loop_i :: "nat \<Rightarrow> Automaton \<Rightarrow> int \<Rightarrow> int \<Rightarrow> Automaton \<Rightarrow> Automaton \<Rightarrow> Dict \<Rightarrow> nat list \<Rightarrow> Automaton option"
  and Product_loop_j :: "nat \<Rightarrow> Automaton \<Rightarrow> int \<Rightarrow> int \<Rightarrow> Automaton \<Rightarrow> Automaton \<Rightarrow> Dict \<Rightarrow> nat \<Rightarrow> int \<Rightarrow> nat list \<Rightarrow> Automaton option"
  where
  "Product_rec 0 r i1 i2 a1 a2 d = None"
| "Product_rec (Suc k) r i1 i2 a1 a2 d =
     Product_loop_i k (set_final r (nat (contract i1 i2 (int (n_of a1)))) 1) i1 i2 a1 a2 d [0..<na_of a1]"
| "Product_loop_i k r i1 i2 a1 a2 d [] = Some r"
| "Product_loop_i k r i1 i2 a1 a2 d (i # is) =
     (let e1 = get_f a1 (nat i1) i in
      if e1 < 0 then Product_loop_i k r i1 i2 a1 a2 d is
      else
        (case Product_loop_j k r i1 i2 a1 a2 d i e1 [0..<na_of a2] of
           None \<Rightarrow> None
         | Some r' \<Rightarrow> Product_loop_i k r' i1 i2 a1 a2 d is))"
| "Product_loop_j k r i1 i2 a1 a2 d i e1 [] = Some r"
| "Product_loop_j k r i1 i2 a1 a2 d i e1 (j # js) =
     (let e2 = get_f a2 (nat i2) j;
          a = d ! nat (contract (int i) (int j) (int (na_of a1)));
          current = nat (contract i1 i2 (int (n_of a1)))
      in if a \<noteq> -1 then
           (if e2 < 0 then Product_loop_j k (set_f r current (nat a) (-1)) i1 i2 a1 a2 d i e1 js
            else
              let next = contract e1 e2 (int (n_of a1));
                  r1 = set_f r current (nat a) next
              in if get_final r1 (nat next) = 0 then
                   (case Product_rec k r1 e1 e2 a1 a2 d of
                      None \<Rightarrow> None
                    | Some r2 \<Rightarrow> Product_loop_j k r2 i1 i2 a1 a2 d i e1 js)
                 else Product_loop_j k r1 i1 i2 a1 a2 d i e1 js)
         else Product_loop_j k r i1 i2 a1 a2 d i e1 js)"
  by pat_completeness auto
termination
  by (relation "inv_image (less_than <*lex*> less_than <*lex*> less_than)
        (\<lambda>x. case x of Inl (k, r, i1, i2, a1, a2, d) \<Rightarrow> (k, 0, 0)
              | Inr (Inl (k, r, i1, i2, a1, a2, d, is)) \<Rightarrow> (k, 2, length is)
              | Inr (Inr (k, r, i1, i2, a1, a2, d, i, e1, js)) \<Rightarrow> (k, 1, length js))") auto

text \<open>The size of the destination alphabet: one more than the largest image in the
  dictionary.\<close>

definition Product_na :: "Dict \<Rightarrow> int" where
  "Product_na d = fold (\<lambda>i na. if d ! i \<ge> na then d ! i + 1 else na) [0..<length d] 0"

definition Product :: "Automaton \<Rightarrow> Automaton \<Rightarrow> Dict \<Rightarrow> Automaton option" where
  "Product a1 a2 d =
     (let r = init (NewAutomaton (n_of a1 * n_of a2) (nat (Product_na d))) in
      if i_of a1 = -1 \<or> i_of a2 = -1 then Some (r\<lparr>i_of := -1\<rparr>)
      else
        let r1 = r\<lparr>i_of := contract (i_of a1) (i_of a2) (int (n_of a1))\<rparr> in
        (case Product_rec (n_of a1 * n_of a2 + 1) r1 (i_of a1) (i_of a2) a1 a2 d of
           None \<Rightarrow> None
         | Some r2 \<Rightarrow>
             Some (fold (\<lambda>s r. set_final r s
                      (if get_final a1 (nat (geti1 (int s) (int (n_of a1)))) \<noteq> 0 \<and>
                          get_final a2 (nat (geti2 (int s) (int (n_of a1)))) \<noteq> 0
                       then 1 else 0))
                    [0..<n_of r2] r2)))"


section \<open>Pruning the states that are not accessible\<close>

text \<open>A recursive exploration gives up with \<open>None\<close> when its depth exceeds the bound it
  is given, which is reported as \<open>DepthExceeded\<close>; an access outside an array is
  \<open>OutOfBounds\<close>; a loop that does not end is \<open>Diverges\<close>; the use of a pointer that
  has never been set is \<open>Uninitialised\<close>.\<close>

datatype error = OutOfBounds | DepthExceeded | Diverges | Uninitialised

text \<open>The restoration of the finality fields: \<^verbatim>\<open>final &= 1\<close> on every state.\<close>

definition restore_finals :: "Automaton \<Rightarrow> Automaton" where
  "restore_finals a = fold (\<lambda>s a. set_final a s (get_final a s AND 1)) [0..<n_of a] a"

text \<open>\<^verbatim>\<open>emondeI_rec\<close> marks with bit \<open>2\<close> the states reachable from \<^verbatim>\<open>etat\<close>.\<close>

function (sequential) emondeI_rec :: "nat \<Rightarrow> Automaton \<Rightarrow> nat \<Rightarrow> Automaton option"
  and emondeI_loop :: "nat \<Rightarrow> Automaton \<Rightarrow> nat \<Rightarrow> nat list \<Rightarrow> Automaton option"
  where
  "emondeI_rec 0 a etat = None"
| "emondeI_rec (Suc k) a etat =
     emondeI_loop k (set_final a etat (get_final a etat OR 2)) etat [0..<na_of a]"
| "emondeI_loop k a etat [] = Some a"
| "emondeI_loop k a etat (i # is) =
     (let f = get_f a etat i in
      if f = -1 then emondeI_loop k a etat is
      else if get_final a (nat f) AND 2 = 0 then
        (case emondeI_rec k a (nat f) of
           None \<Rightarrow> None
         | Some a' \<Rightarrow> emondeI_loop k a' etat is)
      else emondeI_loop k a etat is)"
  by pat_completeness auto
termination
  by (relation "inv_image (less_than <*lex*> less_than)
        (\<lambda>x. case x of Inl (k, a, etat) \<Rightarrow> (k, 0)
              | Inr (k, a, etat, is) \<Rightarrow> (k, 1 + length is))") auto

text \<open>The renumbering \<^verbatim>\<open>l\<close> of the states to keep, in increasing order, with their
  count \<^verbatim>\<open>cpt\<close>; \<open>keep\<close> is the test on the finality field of a state.\<close>

definition renumber :: "(int \<Rightarrow> bool) \<Rightarrow> Automaton \<Rightarrow> int list \<times> nat" where
  "renumber keep a =
     fold (\<lambda>s (l, cpt). if keep (get_final a s) then (l[s := int cpt], cpt + 1)
                           else (l[s := -1], cpt))
       [0..<n_of a] (replicate (n_of a) 0, 0)"

text \<open>The transitions of the pruned automaton: the row of a kept state \<open>s\<close> goes to the
  row \<^verbatim>\<open>l[s]\<close>, a target is renumbered when it is kept and absent otherwise.\<close>

definition prune_cell :: "Automaton \<Rightarrow> int list \<Rightarrow> nat \<Rightarrow> nat \<Rightarrow> Automaton \<Rightarrow> Automaton" where
  "prune_cell a l s j r =
     (let f = get_f a s j;
          r1 = set_f r (nat (l ! s)) j (-1)
      in if f = -1 then r1
         else if l ! nat f \<noteq> -1 then set_f r1 (nat (l ! s)) j (l ! nat f) else r1)"

definition prune_rows :: "Automaton \<Rightarrow> int list \<Rightarrow> Automaton \<Rightarrow> Automaton" where
  "prune_rows a l r =
     fold (\<lambda>s r. if l ! s = -1 then r else fold (prune_cell a l s) [0..<na_of a] r)
       [0..<n_of a] r"

text \<open>The last loop of \<^verbatim>\<open>emondeI\<close> restores the finality of every state of \<^verbatim>\<open>a\<close> and writes
  it to \<^verbatim>\<open>r.e[l[i]]\<close>, for every \<open>i\<close>: the write is checked against the bounds of \<^verbatim>\<open>r.e\<close>.\<close>

fun emondeI_finals :: "int list \<Rightarrow> nat list \<Rightarrow> Automaton \<times> Automaton \<Rightarrow> error + Automaton \<times> Automaton" where
  "emondeI_finals l [] (a, r) = Inr (a, r)"
| "emondeI_finals l (s # ss) (a, r) =
     (let a' = set_final a s (get_final a s AND 1) in
      if 0 \<le> l ! s \<and> l ! s < int (n_of r)
      then emondeI_finals l ss (a', set_final r (nat (l ! s)) (get_final a' s))
      else Inl OutOfBounds)"

text \<open>\<^verbatim>\<open>emondeI\<close> returns the automaton \<^verbatim>\<open>a\<close> as the call leaves it, and the result.\<close>

definition emondeI :: "Automaton \<Rightarrow> error + Automaton \<times> Automaton" where
  "emondeI a =
     (case (if i_of a \<noteq> -1 then emondeI_rec (n_of a) a (nat (i_of a)) else Some a) of
        None \<Rightarrow> Inl DepthExceeded
      | Some a1 \<Rightarrow>
          let (l, cpt) = renumber (\<lambda>v. v AND 2 \<noteq> 0) a1;
              r = prune_rows a1 l (NewAutomaton cpt (na_of a1))
          in (case emondeI_finals l [0..<n_of a1] (a1, r) of
                Inl err \<Rightarrow> Inl err
              | Inr (a2, r2) \<Rightarrow>
                  Inr (a2, r2\<lparr>i_of := (if i_of a2 \<noteq> -1 then l ! nat (i_of a2) else -1)\<rparr>)))"


section \<open>Pruning the states without an infinite path\<close>

text \<open>\<^verbatim>\<open>emonde_inf_rec\<close> uses the finality field as a mark: \<open>0\<close> for a state not seen, \<open>1\<close>
  for a state under study or to keep, \<open>2\<close> for a state to discard. The global counter
  \<^verbatim>\<open>compteur\<close> is threaded with the automaton.\<close>

function (sequential) emonde_inf_rec ::
    "nat \<Rightarrow> Automaton \<times> nat \<Rightarrow> nat \<Rightarrow> (bool \<times> Automaton \<times> nat) option"
  and emonde_inf_loop ::
    "nat \<Rightarrow> Automaton \<times> nat \<Rightarrow> nat \<Rightarrow> bool \<Rightarrow> nat list \<Rightarrow> (bool \<times> Automaton \<times> nat) option"
  where
  "emonde_inf_rec 0 st etat = None"
| "emonde_inf_rec (Suc k) (a, compteur) etat =
     (case emonde_inf_loop k (set_final a etat 1, compteur) etat False [0..<na_of a] of
        None \<Rightarrow> None
      | Some (cycle, a', compteur') \<Rightarrow>
          if \<not> cycle then Some (cycle, set_final a' etat 2, compteur')
          else Some (cycle, a', compteur' + 1))"
| "emonde_inf_loop k st etat cycle [] = Some (cycle, st)"
| "emonde_inf_loop k (a, compteur) etat cycle (i # is) =
     (let f = get_f a etat i in
      if f = -1 then emonde_inf_loop k (a, compteur) etat cycle is
      else
        let cycle1 = (if get_final a (nat f) = 1 then True else cycle) in
        if get_final a (nat f) = 0 then
          (case emonde_inf_rec k (a, compteur) (nat f) of
             None \<Rightarrow> None
           | Some (c, st') \<Rightarrow> emonde_inf_loop k st' etat (if c then True else cycle1) is)
        else emonde_inf_loop k (a, compteur) etat cycle1 is)"
  by pat_completeness auto
termination
  by (relation "inv_image (less_than <*lex*> less_than)
        (\<lambda>x. case x of Inl (k, st, etat) \<Rightarrow> (k, 0)
              | Inr (k, st, etat, cycle, is) \<Rightarrow> (k, 1 + length is))") auto

text \<open>The marks at the end of the exploration from the initial state.\<close>

definition emonde_inf_marks :: "Automaton \<Rightarrow> Automaton option" where
  "emonde_inf_marks a =
     (let a0 = fold (\<lambda>s a. set_final a s 0) [0..<n_of a] a in
      if i_of a0 \<noteq> -1
      then map_option (\<lambda>(cycle, a1, compteur). a1) (emonde_inf_rec (n_of a0) (a0, 0) (nat (i_of a0)))
      else Some a0)"

text \<open>The renumbering \<^verbatim>\<open>l\<close> of \<^verbatim>\<open>emonde_inf\<close>: a state is kept when its mark is \<open>1\<close>.\<close>

definition emonde_inf_l :: "Automaton \<Rightarrow> int list option" where
  "emonde_inf_l a = map_option (\<lambda>a1. fst (renumber (\<lambda>v. v AND 1 \<noteq> 0) a1)) (emonde_inf_marks a)"

text \<open>\<^verbatim>\<open>emonde_inf\<close> returns the automaton \<^verbatim>\<open>a\<close> as the call leaves it, and the result.\<close>

definition emonde_inf :: "Automaton \<Rightarrow> (Automaton \<times> Automaton) option" where
  "emonde_inf a =
     (let finaux = map (get_final a) [0..<n_of a] in
      case emonde_inf_marks a of
        None \<Rightarrow> None
      | Some a1 \<Rightarrow>
          let (l, cpt) = renumber (\<lambda>v. v AND 1 \<noteq> 0) a1;
              r = prune_rows a1 l (NewAutomaton cpt (na_of a1));
              (a2, r2) = fold (\<lambda>s (a, r).
                           (set_final a s (finaux ! s),
                            if l ! s \<noteq> -1 then set_final r (nat (l ! s)) (finaux ! s) else r))
                         [0..<n_of a1] (a1, r)
          in Some (a2, r2\<lparr>i_of := (if i_of a2 \<noteq> -1 then l ! nat (i_of a2) else -1)\<rparr>))"

section \<open>The transition graph\<close>

definition edges :: "Automaton \<Rightarrow> (nat \<times> nat) set" where
  "edges a = {(s, t). s < n_of a \<and> (\<exists>j < na_of a. get_f a s j = int t)}"

text \<open>A state is accessible when a path leads to it from the initial state.\<close>

definition accessible :: "Automaton \<Rightarrow> nat \<Rightarrow> bool" where
  "accessible a s = (i_of a \<noteq> -1 \<and> (nat (i_of a), s) \<in> (edges a)\<^sup>*)"

text \<open>An infinite run starts at \<open>s\<close>; \<open>s\<close> lies on a cycle or can reach one.\<close>

definition infinite_run :: "Automaton \<Rightarrow> nat \<Rightarrow> bool" where
  "infinite_run a s = (\<exists>p. p 0 = s \<and> (\<forall>k. (p k, p (Suc k)) \<in> edges a))"

definition reaches_cycle :: "Automaton \<Rightarrow> nat \<Rightarrow> bool" where
  "reaches_cycle a s = (\<exists>t. (s, t) \<in> (edges a)\<^sup>* \<and> (t, t) \<in> (edges a)\<^sup>+)"


section \<open>Emptiness of the language\<close>



section \<open>Strongly connected components\<close>






section \<open>Pruning the states that are not accessible or not co-accessible\<close>

text \<open>A dictionary that grows by \<^verbatim>\<open>dictAdd\<close> is the list of its \<^verbatim>\<open>n\<close> elements, or \<open>None\<close> when
  its field \<^verbatim>\<open>e\<close> has never been set: \<^verbatim>\<open>NewDict(0)\<close> sets the field \<^verbatim>\<open>n\<close> and returns.
  An inverse dictionary is a list of such dictionaries (the variable \<^verbatim>\<open>id\<close> of the source
  is \<open>idt\<close> here).\<close>

type_synonym GrowDict = "Dict option"

type_synonym InvertDict = "GrowDict list"



text \<open>The elements \<^verbatim>\<open>e[0]\<close>, ..., \<^verbatim>\<open>e[n-1]\<close> that a loop over a dictionary reads: none when
  \<^verbatim>\<open>n\<close> is \<open>0\<close>.\<close>

definition dict_elems :: "GrowDict \<Rightarrow> Dict" where
  "dict_elems d = (case d of None \<Rightarrow> [] | Some xs \<Rightarrow> xs)"

text \<open>Bit \<open>4\<close> is set on every state of a strongly connected component, given by its
  list of states.\<close>

definition mark_component :: "Dict \<Rightarrow> Automaton \<Rightarrow> Automaton" where
  "mark_component members a = fold (\<lambda>q a. set_final a (nat q) (get_final a (nat q) OR 4)) members a"

text \<open>\<^verbatim>\<open>emonde_rec\<close> marks the accessible states with bit \<open>2\<close> and propagates bit \<open>4\<close> to
  the component of a state that leads to a co-accessible state.\<close>

function (sequential) emonde_rec :: "nat \<Rightarrow> Automaton \<Rightarrow> int list \<Rightarrow> InvertDict \<Rightarrow> nat \<Rightarrow> Automaton option"
  and emonde_loop :: "nat \<Rightarrow> Automaton \<Rightarrow> int list \<Rightarrow> InvertDict \<Rightarrow> nat \<Rightarrow> nat list \<Rightarrow> Automaton option"
  where
  "emonde_rec 0 a l idt etat = None"
| "emonde_rec (Suc k) a l idt etat =
     emonde_loop k (set_final a etat (get_final a etat OR 2)) l idt etat [0..<na_of a]"
| "emonde_loop k a l idt etat [] = Some a"
| "emonde_loop k a l idt etat (i # is) =
     (let f = get_f a etat i in
      if f = -1 then emonde_loop k a l idt etat is
      else
        (case (if get_final a (nat f) AND 2 = 0 then emonde_rec k a l idt (nat f) else Some a) of
           None \<Rightarrow> None
         | Some a1 \<Rightarrow>
             if get_final a1 (nat f) AND 4 \<noteq> 0 \<and> get_final a1 etat AND 4 = 0
             then emonde_loop k (mark_component (dict_elems (idt ! nat (l ! etat))) a1) l idt etat is
             else emonde_loop k a1 l idt etat is))"
  by pat_completeness auto
termination
  by (relation "inv_image (less_than <*lex*> less_than)
        (\<lambda>x. case x of Inl (k, a, l, idt, etat) \<Rightarrow> (k, 0)
              | Inr (k, a, l, idt, etat, is) \<Rightarrow> (k, 1 + length is))") auto




section \<open>Equality of languages\<close>

text \<open>\<^verbatim>\<open>equalsLangages\<close> receives two pointers to automata, which may be the same: \<open>p1\<close>
  and \<open>p2\<close> are the addresses of \<^verbatim>\<open>a1\<close> and \<^verbatim>\<open>a2\<close> in the store.\<close>


text \<open>The second loop of \<^verbatim>\<open>equalsLangages_rec\<close>: no transition of \<^verbatim>\<open>e2\<close> without a
  counterpart at \<^verbatim>\<open>e1\<close>.\<close>

fun equalsLangages_loop2 :: "Automaton \<Rightarrow> Automaton \<Rightarrow> Dict \<Rightarrow> nat \<Rightarrow> nat \<Rightarrow> nat list \<Rightarrow> bool" where
  "equalsLangages_loop2 a1 a2 a2toa1 e1 e2 [] = True"
| "equalsLangages_loop2 a1 a2 a2toa1 e1 e2 (i # is) =
     (if get_f a2 e2 i \<noteq> -1 then
        (if a2toa1 ! i \<noteq> -1 then
           (if get_f a1 e1 (nat (a2toa1 ! i)) = -1 then False
            else equalsLangages_loop2 a1 a2 a2toa1 e1 e2 is)
         else False)
      else equalsLangages_loop2 a1 a2 a2toa1 e1 e2 is)"

text \<open>\<^verbatim>\<open>equalsLangages_rec\<close>, with a bound on the depth of the recursion. The value of
  the recursive call in the first loop is discarded, as in the source.\<close>

function (sequential) equalsLangages_rec ::
    "nat \<Rightarrow> store \<Rightarrow> nat \<Rightarrow> nat \<Rightarrow> Dict \<Rightarrow> Dict \<Rightarrow> nat \<Rightarrow> nat \<Rightarrow> (bool \<times> store) option"
  and equalsLangages_loop1 ::
    "nat \<Rightarrow> store \<Rightarrow> nat \<Rightarrow> nat \<Rightarrow> Dict \<Rightarrow> Dict \<Rightarrow> nat \<Rightarrow> nat \<Rightarrow> nat list \<Rightarrow> (bool \<times> store) option"
  where
  "equalsLangages_rec 0 h p1 p2 a1toa2 a2toa1 e1 e2 = None"
| "equalsLangages_rec (Suc k) h p1 p2 a1toa2 a2toa1 e1 e2 =
     (if get_final (h p1) e1 AND 2 \<noteq> 0 \<and> get_final (h p2) e2 AND 2 \<noteq> 0 then Some (True, h)
      else
        let h1 = h(p1 := set_final (h p1) e1 (get_final (h p1) e1 OR 2));
            h2 = h1(p2 := set_final (h1 p2) e2 (get_final (h1 p2) e2 OR 2))
        in (case equalsLangages_loop1 k h2 p1 p2 a1toa2 a2toa1 e1 e2 [0..<na_of (h2 p1)] of
              None \<Rightarrow> None
            | Some (res, h3) \<Rightarrow>
                if \<not> res then Some (False, h3)
                else Some (equalsLangages_loop2 (h3 p1) (h3 p2) a2toa1 e1 e2 [0..<na_of (h3 p2)], h3)))"
| "equalsLangages_loop1 k h p1 p2 a1toa2 a2toa1 e1 e2 [] = Some (True, h)"
| "equalsLangages_loop1 k h p1 p2 a1toa2 a2toa1 e1 e2 (i # is) =
     (if get_f (h p1) e1 i \<noteq> -1 then
        (if a1toa2 ! i \<noteq> -1 then
           (if get_f (h p2) e2 (nat (a1toa2 ! i)) = -1 then Some (False, h)
            else
              (case equalsLangages_rec k h p1 p2 a1toa2 a2toa1
                      (nat (get_f (h p1) e1 i)) (nat (get_f (h p2) e2 (nat (a1toa2 ! i)))) of
                 None \<Rightarrow> None
               | Some (res, h') \<Rightarrow> equalsLangages_loop1 k h' p1 p2 a1toa2 a2toa1 e1 e2 is))
         else Some (False, h))
      else equalsLangages_loop1 k h p1 p2 a1toa2 a2toa1 e1 e2 is)"
  by pat_completeness auto
termination
  by (relation "inv_image (less_than <*lex*> less_than)
        (\<lambda>x. case x of Inl (k, h, p1, p2, d12, d21, e1, e2) \<Rightarrow> (k, 0)
              | Inr (k, h, p1, p2, d12, d21, e1, e2, is) \<Rightarrow> (k, 1 + length is))") auto

text \<open>\<^verbatim>\<open>NewDict\<close> fills a dictionary with \<open>-1\<close>. The inversion of the dictionary writes
  \<^verbatim>\<open>a2toa1.e[a1toa2.e[i]] = i\<close>; the write is checked against the bounds of \<^verbatim>\<open>a2toa1\<close>.\<close>

definition NewDict :: "nat \<Rightarrow> Dict" where
  "NewDict n = replicate n (-1)"

fun invert_into :: "Dict \<Rightarrow> nat list \<Rightarrow> Dict \<Rightarrow> error + Dict" where
  "invert_into a1toa2 [] a2toa1 = Inr a2toa1"
| "invert_into a1toa2 (i # is) a2toa1 =
     (if 0 \<le> a1toa2 ! i \<and> a1toa2 ! i < int (length a2toa1)
      then invert_into a1toa2 is (a2toa1[nat (a1toa2 ! i) := int i])
      else Inl OutOfBounds)"

text \<open>\<^verbatim>\<open>equalsLangages\<close> on automata that are already minimal (\<^verbatim>\<open>minimized\<close> true): the
  part of the function after the minimisation.\<close>

definition equalsLangages_minimized :: "store \<Rightarrow> nat \<Rightarrow> nat \<Rightarrow> Dict \<Rightarrow> error + bool \<times> store" where
  "equalsLangages_minimized h p1 p2 a1toa2 =
     (case invert_into a1toa2 [0..<length a1toa2] (NewDict (na_of (h p2))) of
        Inl err \<Rightarrow> Inl err
      | Inr a2toa1 \<Rightarrow>
          (case equalsLangages_rec (n_of (h p1) + n_of (h p2) + 1) h p1 p2 a1toa2 a2toa1
                  (nat (i_of (h p1))) (nat (i_of (h p2))) of
             None \<Rightarrow> Inl DepthExceeded
           | Some (res, h1) \<Rightarrow>
               let h2 = h1(p1 := restore_finals (h1 p1));
                   h3 = h2(p2 := restore_finals (h2 p2))
               in Inr (res, h3)))"

text \<open>Flipping the finality flag of a state: bit \<open>0\<close> of its finality field.\<close>

definition flip_final :: "Automaton \<Rightarrow> nat \<Rightarrow> Automaton" where
  "flip_final a s = set_final a s (get_final a s XOR 1)"

text \<open>Two automata that differ at most in bit \<open>0\<close> of the finality fields.\<close>

definition flag_equiv :: "Automaton \<Rightarrow> Automaton \<Rightarrow> bool" where
  "flag_equiv a b =
     (n_of a = n_of b \<and> na_of a = na_of b \<and> i_of a = i_of b \<and>
      (\<forall>s j. get_f a s j = get_f b s j) \<and>
      (\<forall>s. get_final a s AND 2 = get_final b s AND 2))"

definition store_equiv :: "store \<Rightarrow> store \<Rightarrow> bool" where
  "store_equiv h h' = (\<forall>p. flag_equiv (h p) (h' p))"

definition res_equiv :: "(bool \<times> store) option \<Rightarrow> (bool \<times> store) option \<Rightarrow> bool" where
  "res_equiv x y = rel_option (\<lambda>u v. fst u = fst v \<and> store_equiv (snd u) (snd v)) x y"


section \<open>Minimisation by Hopcroft's algorithm\<close>

text \<open>The global arrays of the minimisation, all of size \<^verbatim>\<open>a.n + 1\<close>: state \<^verbatim>\<open>a.n\<close> is the
  sink. \<^verbatim>\<open>partition\<close> maps a state to its index, \<^verbatim>\<open>partitioni\<close> an index to its state,
  \<^verbatim>\<open>class\<close> a state to its class, \<^verbatim>\<open>class_indices\<close> a class to its interval of indices;
  \<^verbatim>\<open>L\<close> is the list of the \<^verbatim>\<open>nL\<close> classes still to refine by.\<close>

record hopcroft =
  partition_of :: "nat list"
  partitioni_of :: "nat list"
  class_of :: "nat list"
  class_indices_of :: "(nat \<times> nat) list"
  nclass_of :: nat
  L_of :: "nat list"
  nL_of :: nat
  pt_visited_class_of :: "nat list"
  visited_class_of :: "nat list"
  etats_of :: "nat list"

text \<open>\<^verbatim>\<open>swap\<close> exchanges the indices of the states \<open>i\<close> and \<open>j\<close>.\<close>

definition swap :: "nat \<Rightarrow> nat \<Rightarrow> hopcroft \<Rightarrow> hopcroft" where
  "swap i j s =
     (if i = j then s
      else
        let k = partition_of s ! i;
            p1 = (partition_of s)[i := partition_of s ! j];
            p2 = p1[j := k];
            q1 = (partitioni_of s)[k := j];
            q2 = q1[p2 ! i := i]
        in s\<lparr>partition_of := p2, partitioni_of := q2\<rparr>)"

text \<open>The inverse of the transitions, \<^verbatim>\<open>transitioni[f][j]\<close>: the states that go to \<open>f\<close> by
  the letter \<open>j\<close>, in increasing order, the absent transitions going to the sink \<^verbatim>\<open>a.n\<close>,
  which also goes to itself.\<close>

definition transitioni_add :: "nat \<Rightarrow> nat \<Rightarrow> nat \<Rightarrow> nat list list list \<Rightarrow> nat list list list" where
  "transitioni_add f j i t = t[f := (t ! f)[j := (t ! f ! j) @ [i]]]"

definition build_transitioni :: "Automaton \<Rightarrow> nat list list list" where
  "build_transitioni a =
     (let t0 = replicate (n_of a + 1) (replicate (na_of a) []);
          t1 = fold (\<lambda>i. fold (\<lambda>j t.
                  let f = get_f a i j in
                  if f \<noteq> -1 then transitioni_add (nat f) j i t
                  else transitioni_add (n_of a) j i t) [0..<na_of a]) [0..<n_of a] t0
      in fold (\<lambda>j t. transitioni_add (n_of a) j (n_of a) t) [0..<na_of a] t1)"

text \<open>The first part of \<^verbatim>\<open>split\<close>: every parent \<open>p\<close> of a state of the class \<open>C\<close> by the
  letter is moved to the front of its own class; \<^verbatim>\<open>nrc\<close> counts the classes met.\<close>

definition split_parent :: "nat \<Rightarrow> hopcroft \<times> nat \<Rightarrow> hopcroft \<times> nat" where
  "split_parent p = (\<lambda>(s, nrc).
     let cp = class_of s ! p;
         (s1, nrc1) =
           (if pt_visited_class_of s ! cp = 0
            then (s\<lparr>visited_class_of := (visited_class_of s)[nrc := cp],
                    pt_visited_class_of := (pt_visited_class_of s)[cp := fst (class_indices_of s ! cp)]\<rparr>,
                  nrc + 1)
            else (s, nrc));
         ep = pt_visited_class_of s1 ! cp
     in if ep > partition_of s1 ! p then (s1, nrc1)
        else
          let s2 = swap (partitioni_of s1 ! ep) p s1
          in (s2\<lparr>pt_visited_class_of := (pt_visited_class_of s2)[cp := pt_visited_class_of s2 ! cp + 1]\<rparr>,
              nrc1))"

text \<open>The second part of \<^verbatim>\<open>split\<close>: a class met whose front is not the whole class is
  cut in two; the smaller part becomes the new class \<^verbatim>\<open>nclass\<close>, which is added to \<^verbatim>\<open>L\<close>.\<close>

definition split_class :: "nat \<Rightarrow> hopcroft \<Rightarrow> hopcroft" where
  "split_class cp s =
     (let l = fst (class_indices_of s ! cp);
          h = snd (class_indices_of s ! cp);
          j = pt_visited_class_of s ! cp;
          s3 =
            (if j < h then
               let ci = (if h - j > j - l
                         then (class_indices_of s)[cp := (j, h), nclass_of s := (l, j)]
                         else (class_indices_of s)[cp := (l, j), nclass_of s := (j, h)]);
                   s1 = s\<lparr>class_indices_of := ci\<rparr>;
                   s2 = fold (\<lambda>j s. s\<lparr>class_of := (class_of s)[partitioni_of s ! j := nclass_of s]\<rparr>)
                          [fst (ci ! nclass_of s)..<snd (ci ! nclass_of s)] s1
               in s2\<lparr>L_of := (L_of s2)[nL_of s2 := nclass_of s2], nL_of := nL_of s2 + 1,
                     nclass_of := nclass_of s2 + 1\<rparr>
             else s)
      in s3\<lparr>pt_visited_class_of := (pt_visited_class_of s3)[cp := 0]\<rparr>)"

definition split :: "nat list list list \<Rightarrow> nat \<Rightarrow> nat \<Rightarrow> hopcroft \<Rightarrow> hopcroft" where
  "split transitioni C a s =
     (let l = fst (class_indices_of s ! C);
          h = snd (class_indices_of s ! C);
          s1 = fold (\<lambda>i s. s\<lparr>etats_of := (etats_of s)[i := partitioni_of s ! i]\<rparr>) [l..<h] s;
          (s2, nrc) = fold (\<lambda>i st. fold split_parent (transitioni ! (etats_of (fst st) ! i) ! a) st)
                        [l..<h] (s1, 0)
      in fold (\<lambda>i s. split_class (visited_class_of s ! i) s) [0..<nrc] s2)"

text \<open>The initial partition: the final states first (class \<open>0\<close>), then the others with
  the sink (class \<open>1\<close>); \<open>f\<close> counts the final states.\<close>

definition initial_partition :: "Automaton \<Rightarrow> hopcroft" where
  "initial_partition a =
     (let n = n_of a;
          s0 = \<lparr>partition_of = [0..<n + 1], partitioni_of = [0..<n + 1],
                class_of = replicate (n + 1) 0, class_indices_of = replicate (n + 1) (0, 0),
                nclass_of = 0, L_of = replicate (n + 1) 0, nL_of = 0,
                pt_visited_class_of = replicate (n + 1) 0, visited_class_of = replicate (n + 1) 0,
                etats_of = replicate (n + 1) 0\<rparr>;
          (s1, f) = fold (\<lambda>i (s, f).
                      if get_final a i \<noteq> 0
                      then (swap (partitioni_of s ! f) i (s\<lparr>class_of := (class_of s)[i := 0]\<rparr>), f + 1)
                      else (s\<lparr>class_of := (class_of s)[i := 1]\<rparr>, f)) [0..<n] (s0, 0);
          s2 = s1\<lparr>class_of := (class_of s1)[n := 1]\<rparr>;
          s3 = s2\<lparr>class_indices_of := (class_indices_of s2)[0 := (0, f), 1 := (f, n + 1)],
                 visited_class_of := (visited_class_of s2)[0 := 0, 1 := 0], nclass_of := 2\<rparr>
      in s3\<lparr>L_of := (L_of s3)[0 := (if f \<le> (n + 1) div 2 then 0 else 1)], nL_of := 1\<rparr>)"

text \<open>One turn of the main loop: the last class of \<^verbatim>\<open>L\<close> is removed and every class is
  split by it, letter after letter.\<close>

definition refine_step :: "nat list list list \<Rightarrow> nat \<Rightarrow> hopcroft \<Rightarrow> hopcroft" where
  "refine_step transitioni na s =
     (let s1 = s\<lparr>nL_of := nL_of s - 1\<rparr>;
          C = L_of s1 ! nL_of s1
      in fold (\<lambda>j s. split transitioni C j s) [0..<na] s1)"

text \<open>The quotient automaton: one state per class, with the transitions and the
  finality of the first state of the class; the class of the sink has no transition.\<close>

definition quotient_row :: "Automaton \<Rightarrow> hopcroft \<Rightarrow> nat \<Rightarrow> Etat" where
  "quotient_row a s i =
     (let e = partitioni_of s ! fst (class_indices_of s ! i) in
      if e \<ge> n_of a then \<lparr>f_of = replicate (na_of a) (-1), final_of = 0\<rparr>
      else \<lparr>f_of = map (\<lambda>j. if get_f a e j \<noteq> -1 then int (class_of s ! nat (get_f a e j)) else -1)
                     [0..<na_of a],
            final_of = get_final a e\<rparr>)"

definition quotient :: "Automaton \<Rightarrow> hopcroft \<Rightarrow> Automaton" where
  "quotient a s =
     (let r = \<lparr>e_of = map (quotient_row a s) [0..<nclass_of s], na_of = na_of a,
               i_of = (if i_of a \<noteq> -1 then int (class_of s ! nat (i_of a)) else -1)\<rparr>;
          i = class_of s ! n_of a
      in if snd (class_indices_of s ! i) = fst (class_indices_of s ! i) + 1
         then DeleteVertexOP r (int i) else r)"

text \<open>\<^verbatim>\<open>Minimise\<close>: the value is \<open>None\<close> if the main loop does not end.\<close>

definition Minimise :: "Automaton \<Rightarrow> Automaton option" where
  "Minimise a =
     map_option (quotient a)
       (while_option (\<lambda>s. nL_of s \<noteq> 0) (refine_step (build_transitioni a) (na_of a))
          (initial_partition a))"


text \<open>\<^verbatim>\<open>equalsLangages\<close>: unless \<^verbatim>\<open>minimized\<close> is set, each automaton is first replaced, in
  the store, by its minimisation.\<close>

definition equalsLangages :: "store \<Rightarrow> nat \<Rightarrow> nat \<Rightarrow> Dict \<Rightarrow> bool \<Rightarrow> error + bool \<times> store" where
  "equalsLangages h p1 p2 a1toa2 minimized =
     (if minimized then equalsLangages_minimized h p1 p2 a1toa2
      else
        (case Minimise (h p1) of
           None \<Rightarrow> Inl Diverges
         | Some a3 \<Rightarrow>
             let h1 = h(p1 := a3) in
             (case Minimise (h1 p2) of
                None \<Rightarrow> Inl Diverges
              | Some a3' \<Rightarrow> equalsLangages_minimized (h1(p2 := a3')) p1 p2 a1toa2)))"

text \<open>The answer of a call: the boolean, or the error.\<close>

definition answer :: "error + bool \<times> store \<Rightarrow> error + bool" where
  "answer x = map_sum id fst x"

text \<open>A store with \<open>a\<close> at address \<open>0\<close> and \<open>b\<close> everywhere else.\<close>

definition store2 :: "Automaton \<Rightarrow> Automaton \<Rightarrow> store" where
  "store2 a b = (\<lambda>p. if p = 0 then a else b)"

section \<open>Concrete automata\<close>

text \<open>The automaton of the specification's scenario: two states over \<open>{0, 1}\<close>, state \<open>0\<close>
  initial, state \<open>1\<close> final; it recognises the words with at least one \<open>1\<close>.\<close>

definition ex_two :: Automaton where
  "ex_two = \<lparr>e_of = [\<lparr>f_of = [0, 1], final_of = 0\<rparr>, \<lparr>f_of = [1, 1], final_of = 1\<rparr>],
             na_of = 2, i_of = 0\<rparr>"

text \<open>The same automaton without the edge from state \<open>0\<close> to itself on letter \<open>0\<close>.\<close>

definition ex_lack :: Automaton where
  "ex_lack = \<lparr>e_of = [\<lparr>f_of = [-1, 1], final_of = 0\<rparr>, \<lparr>f_of = [1, 1], final_of = 1\<rparr>],
              na_of = 2, i_of = 0\<rparr>"

text \<open>Two states, the second of which cannot be reached from the initial state \<open>0\<close>.\<close>

definition ex_unreach :: Automaton where
  "ex_unreach = \<lparr>e_of = [\<lparr>f_of = [0, 0], final_of = 1\<rparr>, \<lparr>f_of = [0, 1], final_of = 0\<rparr>],
                 na_of = 2, i_of = 0\<rparr>"

text \<open>One state that is initial and not final, with a loop on the only letter: the
  language is empty.\<close>

definition ex_loop :: Automaton where
  "ex_loop = \<lparr>e_of = [\<lparr>f_of = [0], final_of = 0\<rparr>], na_of = 1, i_of = 0\<rparr>"

text \<open>Four states: state \<open>2\<close> loops on the letter \<open>0\<close>, state \<open>3\<close> has no transition and
  state \<open>1\<close> leads to state \<open>3\<close> only.\<close>

definition ex_four :: Automaton where
  "ex_four = \<lparr>e_of = [\<lparr>f_of = [1, 2], final_of = 0\<rparr>, \<lparr>f_of = [3, 3], final_of = 0\<rparr>,
                      \<lparr>f_of = [2, -1], final_of = 0\<rparr>, \<lparr>f_of = [-1, -1], final_of = 1\<rparr>],
              na_of = 2, i_of = 0\<rparr>"

section \<open>Invariants and auxiliary notions\<close>

definition kept_below :: "(int \<Rightarrow> bool) \<Rightarrow> Automaton \<Rightarrow> nat \<Rightarrow> nat" where
  "kept_below keep a k = card {t. t < k \<and> keep (get_final a t)}"

definition prune_val :: "Automaton \<Rightarrow> int list \<Rightarrow> nat \<Rightarrow> nat \<Rightarrow> int" where
  "prune_val a l s j = (if get_f a s j = -1 then -1 else l ! nat (get_f a s j))"

text \<open>A renumbering is sound for a result when the kept states have distinct new
  indices within the result.\<close>

definition renumbering :: "nat \<Rightarrow> int list \<Rightarrow> nat \<Rightarrow> bool" where
  "renumbering n l cpt =
     (length l = n \<and> (\<forall>s < n. l ! s = -1 \<or> (0 \<le> l ! s \<and> l ! s < int cpt)) \<and>
      (\<forall>s < n. \<forall>t < n. s \<noteq> t \<longrightarrow> l ! s \<noteq> -1 \<longrightarrow> l ! s \<noteq> l ! t))"

definition same_graph :: "Automaton \<Rightarrow> Automaton \<Rightarrow> bool" where
  "same_graph a m = (n_of m = n_of a \<and> na_of m = na_of a \<and> i_of m = i_of a \<and>
     (\<forall>s. f_of (e_of m ! s) = f_of (e_of a ! s)))"

definition unseen :: "Automaton \<Rightarrow> nat set" where
  "unseen m = {s. s < n_of m \<and> get_final m s = 0}"

definition inf_inv :: "Automaton \<Rightarrow> Automaton \<Rightarrow> nat set \<Rightarrow> bool" where
  "inf_inv a m G =
     (same_graph a m \<and>
      (\<forall>s < n_of a. get_final m s = 0 \<or> get_final m s = 1 \<or> get_final m s = 2) \<and>
      (\<forall>g \<in> G. g < n_of a \<and> get_final m g = 1) \<and>
      (\<forall>s < n_of a. get_final m s = 1 \<longrightarrow> s \<notin> G \<longrightarrow> reaches_cycle a s) \<and>
      (\<forall>s < n_of a. get_final m s = 2 \<longrightarrow> \<not> reaches_cycle a s) \<and>
      (\<forall>s < n_of a. get_final m s \<noteq> 0 \<longrightarrow> s \<notin> G \<longrightarrow>
          (\<forall>t. (s, t) \<in> edges a \<longrightarrow> get_final m t \<noteq> 0)))"

definition inf_grow :: "Automaton \<Rightarrow> Automaton \<Rightarrow> Automaton \<Rightarrow> nat \<Rightarrow> bool" where
  "inf_grow a m m' r =
     ((\<forall>s < n_of a. get_final m s \<noteq> 0 \<longrightarrow> get_final m' s = get_final m s) \<and>
      (\<forall>s < n_of a. get_final m s = 0 \<longrightarrow> get_final m' s \<noteq> 0 \<longrightarrow> (r, s) \<in> (edges a)\<^sup>*))"

definition inf_rec_ok :: "Automaton \<Rightarrow> nat \<Rightarrow> bool" where
  "inf_rec_ok a k =
     (\<forall>m c etat G. inf_inv a m G \<longrightarrow> etat < n_of a \<longrightarrow> get_final m etat = 0 \<longrightarrow>
        (\<forall>g \<in> G. (g, etat) \<in> (edges a)\<^sup>*) \<longrightarrow> card (unseen m) \<le> k \<longrightarrow>
        (\<exists>cyc m' c'. emonde_inf_rec k (m, c) etat = Some (cyc, m', c') \<and> inf_inv a m' G \<and>
           inf_grow a m m' etat \<and> get_final m' etat = (if cyc then 1 else 2)))"

definition seen_targets :: "Automaton \<Rightarrow> Automaton \<Rightarrow> nat \<Rightarrow> bool \<Rightarrow> nat list \<Rightarrow> bool" where
  "seen_targets a m etat cyc js =
     (\<forall>j < na_of a. j \<notin> set js \<longrightarrow> get_f a etat j \<noteq> -1 \<longrightarrow>
        get_final m (nat (get_f a etat j)) \<noteq> 0 \<and>
        (\<not> cyc \<longrightarrow> get_final m (nat (get_f a etat j)) = 2))"

definition unseen2 :: "Automaton \<Rightarrow> nat set" where
  "unseen2 m = {s. s < n_of m \<and> get_final m s AND 2 = 0}"

text \<open>An automaton after some states have been marked with bit \<open>2\<close>.\<close>

definition marked_from :: "Automaton \<Rightarrow> Automaton \<Rightarrow> bool" where
  "marked_from a m = (same_graph a m \<and>
     (\<forall>s < n_of a. get_final m s = get_final a s \<or> get_final m s = get_final a s OR 2))"

definition store_marked :: "store \<Rightarrow> store \<Rightarrow> bool" where
  "store_marked h h' = (\<forall>p. marked_from (h p) (h' p))"

text \<open>The dictionary sends a letter of \<^verbatim>\<open>a1\<close> to a letter of \<^verbatim>\<open>a2\<close>, or to \<open>-1\<close>.\<close>

definition wf_dict :: "Dict \<Rightarrow> nat \<Rightarrow> nat \<Rightarrow> bool" where
  "wf_dict d na1 na2 = (length d = na1 \<and> (\<forall>i < na1. d ! i = -1 \<or> (0 \<le> d ! i \<and> d ! i < int na2)))"

definition eq_weight :: "store \<Rightarrow> nat \<Rightarrow> nat \<Rightarrow> nat" where
  "eq_weight h p1 p2 = card (unseen2 (h p1)) + card (unseen2 (h p2))"

definition eq_pre :: "store \<Rightarrow> nat \<Rightarrow> nat \<Rightarrow> Dict \<Rightarrow> bool" where
  "eq_pre h p1 p2 d = (wf_targets (h p1) \<and> wf_targets (h p2) \<and>
      wf_dict d (na_of (h p1)) (na_of (h p2)))"

definition eq_rec_ok :: "nat \<Rightarrow> nat \<Rightarrow> nat \<Rightarrow> Dict \<Rightarrow> Dict \<Rightarrow> bool" where
  "eq_rec_ok k p1 p2 d d' =
     (\<forall>h e1 e2. eq_pre h p1 p2 d \<longrightarrow> e1 < n_of (h p1) \<longrightarrow> e2 < n_of (h p2) \<longrightarrow>
        eq_weight h p1 p2 < k \<longrightarrow>
        (\<exists>b h'. equalsLangages_rec k h p1 p2 d d' e1 e2 = Some (b, h') \<and> store_marked h h'))"

text \<open>Two automata with the same transitions, compared under the identity dictionary.\<close>

definition identity_dict :: "nat \<Rightarrow> Dict" where
  "identity_dict na = map int [0..<na]"

text \<open>An automaton after a traversal has written marker bits in the finality fields:
  the transitions and bit \<open>0\<close> are unchanged, and a state marked with bit \<open>2\<close> stays so.\<close>

definition grown :: "Automaton \<Rightarrow> Automaton \<Rightarrow> bool" where
  "grown a m = (same_graph a m \<and>
     (\<forall>s < n_of a. get_final m s AND 1 = get_final a s AND 1 \<and>
        (get_final a s AND 2 \<noteq> 0 \<longrightarrow> get_final m s AND 2 \<noteq> 0)))"



definition emonde_rec_ok :: "nat \<Rightarrow> int list \<Rightarrow> InvertDict \<Rightarrow> bool" where
  "emonde_rec_ok k l idt = (\<forall>a etat. wf_targets a \<longrightarrow> etat \<in> unseen2 a \<longrightarrow> card (unseen2 a) \<le> k \<longrightarrow>
      (\<exists>a'. emonde_rec k a l idt etat = Some a' \<and> grown a a'))"










text \<open>\<^verbatim>\<open>partition\<close> and \<^verbatim>\<open>partitioni\<close> are permutations of the \<open>N\<close> states (the sink
  included), inverse of each other.\<close>

definition perm_ok :: "nat \<Rightarrow> hopcroft \<Rightarrow> bool" where
  "perm_ok N s =
     (length (partition_of s) = N \<and> length (partitioni_of s) = N \<and>
      (\<forall>p < N. partition_of s ! p < N \<and> partitioni_of s ! (partition_of s ! p) = p) \<and>
      (\<forall>i < N. partitioni_of s ! i < N \<and> partition_of s ! (partitioni_of s ! i) = i))"

text \<open>The interval of indices of a class.\<close>

definition lo :: "hopcroft \<Rightarrow> nat \<Rightarrow> nat" where
  "lo s c = fst (class_indices_of s ! c)"

definition hi :: "hopcroft \<Rightarrow> nat \<Rightarrow> nat" where
  "hi s c = snd (class_indices_of s ! c)"

text \<open>Every state has its index in the interval of its class, and the states at the
  indices of the interval of a class are in this class.\<close>

definition classes_ok :: "nat \<Rightarrow> hopcroft \<Rightarrow> bool" where
  "classes_ok N s =
     (length (class_of s) = N \<and> length (class_indices_of s) = N \<and> nclass_of s \<le> N \<and>
      (\<forall>p < N. class_of s ! p < nclass_of s \<and> lo s (class_of s ! p) \<le> partition_of s ! p \<and>
         partition_of s ! p < hi s (class_of s ! p)) \<and>
      (\<forall>c < nclass_of s. \<forall>i. lo s c \<le> i \<and> i < hi s c \<longrightarrow>
         i < N \<and> class_of s ! (partitioni_of s ! i) = c))"

text \<open>Between two calls of \<^verbatim>\<open>split\<close> every \<^verbatim>\<open>pt_visited_class\<close> is \<open>0\<close>; in a call, the
  classes met, \<open>V\<close>, have their front between the bounds of their interval.\<close>

definition marks_ok :: "nat \<Rightarrow> hopcroft \<Rightarrow> nat set \<Rightarrow> bool" where
  "marks_ok N s V =
     (length (pt_visited_class_of s) = N \<and>
      (\<forall>c < N. c \<notin> V \<longrightarrow> pt_visited_class_of s ! c = 0) \<and>
      (\<forall>c. c \<in> V \<longrightarrow> c < nclass_of s \<and> lo s c < pt_visited_class_of s ! c \<and>
         pt_visited_class_of s ! c \<le> hi s c))"

definition worklist_ok :: "nat \<Rightarrow> hopcroft \<Rightarrow> bool" where
  "worklist_ok N s =
     (length (L_of s) = N \<and> nL_of s < nclass_of s \<and> (\<forall>i < nL_of s. L_of s ! i < nclass_of s))"

definition hinv :: "nat \<Rightarrow> hopcroft \<Rightarrow> nat set \<Rightarrow> bool" where
  "hinv N s V =
     (perm_ok N s \<and> classes_ok N s \<and> marks_ok N s V \<and> worklist_ok N s \<and>
      length (visited_class_of s) = N \<and> length (etats_of s) = N)"

text \<open>The fields that the first part of \<^verbatim>\<open>split\<close> does not write.\<close>

definition same_classes :: "hopcroft \<Rightarrow> hopcroft \<Rightarrow> bool" where
  "same_classes s s' =
     (class_of s' = class_of s \<and> class_indices_of s' = class_indices_of s \<and>
      nclass_of s' = nclass_of s \<and> L_of s' = L_of s \<and> nL_of s' = nL_of s \<and>
      etats_of s' = etats_of s)"

text \<open>The first part of \<^verbatim>\<open>split\<close>: \<^verbatim>\<open>visited_class\<close> holds the \<^verbatim>\<open>nrc\<close> classes met, without
  repetition.\<close>

definition phase1 :: "nat \<Rightarrow> hopcroft \<Rightarrow> nat \<Rightarrow> bool" where
  "phase1 N s nrc =
     (hinv N s (set (take nrc (visited_class_of s))) \<and> distinct (take nrc (visited_class_of s)) \<and>
      nrc \<le> N)"

definition trans_ok :: "nat \<Rightarrow> nat \<Rightarrow> nat list list list \<Rightarrow> bool" where
  "trans_ok N na t = (\<forall>e < N. \<forall>a < na. \<forall>p \<in> set (t ! e ! a). p < N)"

text \<open>Every class has a state.\<close>

definition allne :: "hopcroft \<Rightarrow> bool" where
  "allne s = (\<forall>c < nclass_of s. lo s c < hi s c)"

text \<open>The invariant of the main loop: either every class has a state, or the class \<open>0\<close>
  of the final states is empty and is the only class in \<^verbatim>\<open>L\<close>.\<close>

definition loop_inv :: "nat \<Rightarrow> hopcroft \<Rightarrow> bool" where
  "loop_inv N s =
     (hinv N s {} \<and> 2 \<le> nclass_of s \<and>
      (allne s \<or> (lo s 0 = hi s 0 \<and> (\<forall>i < nL_of s. L_of s ! i = 0))))"

definition measure_of :: "nat \<Rightarrow> hopcroft \<Rightarrow> nat" where
  "measure_of N s = 2 * (N - nclass_of s) + nL_of s"

definition init_fold :: "Automaton \<Rightarrow> nat \<Rightarrow> hopcroft \<times> nat \<Rightarrow> hopcroft \<times> nat" where
  "init_fold a i = (\<lambda>(s, f).
     if get_final a i \<noteq> 0
     then (swap (partitioni_of s ! f) i (s\<lparr>class_of := (class_of s)[i := 0]\<rparr>), f + 1)
     else (s\<lparr>class_of := (class_of s)[i := 1]\<rparr>, f))"

definition init_state :: "nat \<Rightarrow> hopcroft" where
  "init_state n =
     \<lparr>partition_of = [0..<n + 1], partitioni_of = [0..<n + 1],
      class_of = replicate (n + 1) 0, class_indices_of = replicate (n + 1) (0, 0),
      nclass_of = 0, L_of = replicate (n + 1) 0, nL_of = 0,
      pt_visited_class_of = replicate (n + 1) 0, visited_class_of = replicate (n + 1) 0,
      etats_of = replicate (n + 1) 0\<rparr>"

text \<open>After the states below \<open>k\<close>: the \<open>f\<close> final states among them have the indices below
  \<open>f\<close>, and the states from \<open>k\<close> on have kept their index.\<close>

definition init_inv :: "Automaton \<Rightarrow> nat \<Rightarrow> nat \<Rightarrow> hopcroft \<Rightarrow> nat \<Rightarrow> bool" where
  "init_inv a N k s f =
     (perm_ok N s \<and> f \<le> k \<and> length (class_of s) = N \<and>
      (\<forall>i < k. class_of s ! i = (if partition_of s ! i < f then 0 else 1)) \<and>
      (\<forall>i < k. (class_of s ! i = 0) = (get_final a i \<noteq> 0)) \<and>
      (\<forall>i < k. partition_of s ! i < k) \<and>
      (\<forall>i. k \<le> i \<and> i < N \<longrightarrow> partition_of s ! i = i) \<and>
      class_indices_of s = replicate N (0, 0) \<and> L_of s = replicate N 0 \<and>
      pt_visited_class_of s = replicate N 0 \<and> visited_class_of s = replicate N 0 \<and>
      etats_of s = replicate N 0)"

definition table_ok :: "nat \<Rightarrow> nat \<Rightarrow> nat list list list \<Rightarrow> bool" where
  "table_ok N na t = (length t = N \<and> (\<forall>e < N. length (t ! e) = na) \<and> trans_ok N na t)"

definition shifted :: "Automaton \<Rightarrow> int \<Rightarrow> nat \<Rightarrow> Automaton \<Rightarrow> Automaton" where
  "shifted a v s r =
     (let r' = fold (\<lambda>j r. set_f r s j (DeleteVertex_cell r v s j)) [0..<na_of r] r
      in set_final r' s (get_final r' (nat (int s + ge01 (int s) v))))"

definition classes_automaton :: "Automaton \<Rightarrow> hopcroft \<Rightarrow> Automaton" where
  "classes_automaton a s =
     \<lparr>e_of = map (quotient_row a s) [0..<nclass_of s], na_of = na_of a,
      i_of = (if i_of a \<noteq> -1 then int (class_of s ! nat (i_of a)) else -1)\<rparr>"

text \<open>The result of \<^verbatim>\<open>Minimise\<close> for the automaton \<open>ex_loop\<close>.\<close>

definition ex_loop_min :: Automaton where
  "ex_loop_min = \<lparr>e_of = [\<lparr>f_of = [1], final_of = 0\<rparr>, \<lparr>f_of = [1], final_of = 0\<rparr>],
                  na_of = 1, i_of = 1\<rparr>"

section \<open>Properties\<close>

section \<open>Reading and writing cells\<close>

lemma set_f_fields [simp]:
  "i_of (set_f a s j v) = i_of a" "na_of (set_f a s j v) = na_of a" "n_of (set_f a s j v) = n_of a"
  by (simp_all add: set_f_def n_of_def)

lemma set_final_fields [simp]:
  "i_of (set_final a s v) = i_of a" "na_of (set_final a s v) = na_of a"
  "n_of (set_final a s v) = n_of a"
  by (simp_all add: set_final_def n_of_def)

lemma row_len_set_f [simp]:
  "length (f_of (e_of (set_f a s j v) ! s')) = length (f_of (e_of a ! s'))"
  by (cases "s < length (e_of a)"; cases "s' = s") (simp_all add: set_f_def list_update_beyond)

lemma row_len_set_final [simp]:
  "length (f_of (e_of (set_final a s v) ! s')) = length (f_of (e_of a ! s'))"
  by (cases "s < length (e_of a)"; cases "s' = s") (simp_all add: set_final_def list_update_beyond)

lemma row_set_final [simp]: "f_of (e_of (set_final a s v) ! s') = f_of (e_of a ! s')"
  by (cases "s < length (e_of a)"; cases "s' = s") (simp_all add: set_final_def list_update_beyond)

lemma get_f_set_f:
  "get_f (set_f a s j v) s' j' =
     (if s' = s \<and> j' = j \<and> s < n_of a \<and> j < length (f_of (e_of a ! s)) then v else get_f a s' j')"
  by (cases "s < length (e_of a)"; cases "s' = s"; cases "j' = j")
     (simp_all add: set_f_def get_f_def n_of_def list_update_beyond)

lemma get_final_set_f [simp]: "get_final (set_f a s j v) s' = get_final a s'"
  by (cases "s < length (e_of a)"; cases "s' = s") (simp_all add: set_f_def get_final_def list_update_beyond)

lemma get_f_set_final [simp]: "get_f (set_final a s v) s' j = get_f a s' j"
  by (cases "s < length (e_of a)"; cases "s' = s") (simp_all add: set_final_def get_f_def list_update_beyond)

lemma get_final_set_final:
  "get_final (set_final a s v) s' = (if s' = s \<and> s < n_of a then v else get_final a s')"
  by (cases "s < length (e_of a)"; cases "s' = s") (simp_all add: set_final_def get_final_def n_of_def list_update_beyond)

text \<open>Two automata with the same observations are equal.\<close>

lemma Etat_eqI: "f_of x = f_of y \<Longrightarrow> final_of x = final_of y \<Longrightarrow> (x::Etat) = y"
  by simp

lemma Automaton_eqI:
  assumes "n_of a = n_of b" "na_of a = na_of b" "i_of a = i_of b"
    and "\<And>s. s < n_of a \<Longrightarrow> f_of (e_of a ! s) = f_of (e_of b ! s)"
    and "\<And>s. s < n_of a \<Longrightarrow> get_final a s = get_final b s"
  shows "(a::Automaton) = b"
proof -
  have "e_of a = e_of b"
    using assms by (intro nth_equalityI) (auto simp: n_of_def get_final_def)
  with assms show ?thesis by simp
qed

lemma fold_set_f_fields [simp]:
  "n_of (fold (\<lambda>j r. set_f r s j (g j r)) js r) = n_of r"
  "na_of (fold (\<lambda>j r. set_f r s j (g j r)) js r) = na_of r"
  "i_of (fold (\<lambda>j r. set_f r s j (g j r)) js r) = i_of r"
  "get_final (fold (\<lambda>j r. set_f r s j (g j r)) js r) s' = get_final r s'"
  "length (f_of (e_of (fold (\<lambda>j r. set_f r s j (g j r)) js r) ! s')) = length (f_of (e_of r ! s'))"
  by (induction js arbitrary: r; simp)+

lemma fold_set_f_other:
  "s' \<noteq> s \<Longrightarrow> get_f (fold (\<lambda>j r. set_f r s j (g j r)) js r) s' j' = get_f r s' j'"
  by (induction js arbitrary: r) (simp_all add: get_f_set_f)

lemma fold_fill_row:
  assumes "s < n_of r" "k \<le> length (f_of (e_of r ! s))"
  shows "get_f (fold (\<lambda>j r. set_f r s j (g j)) [0..<k] r) s j' = (if j' < k then g j' else get_f r s j')"
  using assms by (induction k) (auto simp: get_f_set_f less_Suc_eq)

lemma fold_fill_rows_fields [simp]:
  "n_of (fold (\<lambda>s r. set_final (fold (\<lambda>j r. set_f r s j (g s j r)) (js s r) r) s (h s r)) ss r) = n_of r"
  "na_of (fold (\<lambda>s r. set_final (fold (\<lambda>j r. set_f r s j (g s j r)) (js s r) r) s (h s r)) ss r) = na_of r"
  "i_of (fold (\<lambda>s r. set_final (fold (\<lambda>j r. set_f r s j (g s j r)) (js s r) r) s (h s r)) ss r) = i_of r"
  "length (f_of (e_of (fold (\<lambda>s r. set_final (fold (\<lambda>j r. set_f r s j (g s j r)) (js s r) r) s (h s r)) ss r) ! s'))
    = length (f_of (e_of r ! s'))"
  by (induction ss arbitrary: r; simp)+


lemma NewAutomaton_fields [simp]:
  "n_of (NewAutomaton n na) = n" "na_of (NewAutomaton n na) = na"
  "s < n \<Longrightarrow> length (f_of (e_of (NewAutomaton n na) ! s)) = na"
  by (simp_all add: NewAutomaton_def n_of_def)

lemma i_update_obs [simp]:
  "n_of (a\<lparr>i_of := x\<rparr>) = n_of a" "get_f (a\<lparr>i_of := x\<rparr>) s j = get_f a s j"
  "get_final (a\<lparr>i_of := x\<rparr>) s = get_final a s"
  by (simp_all add: n_of_def get_f_def get_final_def)

subsection \<open>Marker bits\<close>

lemma or_and_same_exp: "(x OR 2 ^ k) AND 2 ^ k = (2 ^ k :: int)"
  by (auto simp add: bit_eq_iff [where ?'a = int] bit_simps)

lemma or_and_other_exp: "j \<noteq> k \<Longrightarrow> (x OR 2 ^ k) AND 2 ^ j = x AND (2 ^ j :: int)"
  by (auto simp add: bit_eq_iff [where ?'a = int] bit_simps)

lemma xor_and_other_exp: "j \<noteq> k \<Longrightarrow> (x XOR 2 ^ k) AND 2 ^ j = x AND (2 ^ j :: int)"
  by (auto simp add: bit_eq_iff [where ?'a = int] bit_simps)

lemma and_exp_cases: "x AND 2 ^ k = 0 \<or> x AND 2 ^ k = (2 ^ k :: int)"
  by (cases "bit x k") (auto simp add: bit_eq_iff [where ?'a = int] bit_simps)

lemma and_and_exp: "j \<noteq> k \<Longrightarrow> (x AND 2 ^ k) AND 2 ^ j = (0 :: int)"
  by (auto simp add: bit_eq_iff [where ?'a = int] bit_simps)

lemmas flag_simps =
  or_and_same_exp [of _ 1, simplified] or_and_same_exp [of _ 2, simplified]
  or_and_other_exp [of 0 1, simplified] or_and_other_exp [of 0 2, simplified]
  or_and_other_exp [of 1 2, simplified] or_and_other_exp [of 2 1, simplified]
  and_and_exp [of 1 0, simplified] and_and_exp [of 2 0, simplified]
  xor_and_other_exp [of 1 0, simplified] xor_and_other_exp [of 2 0, simplified]

lemma and_1_cases: "(x::int) AND 1 = 0 \<or> x AND 1 = 1"
  using and_exp_cases [of x 0] by simp

lemma and_2_cases: "(x::int) AND 2 = 0 \<or> x AND 2 = 2"
  using and_exp_cases [of x 1] by simp

lemma and_4_cases: "(x::int) AND 4 = 0 \<or> x AND 4 = 4"
  using and_exp_cases [of x 2] by simp

lemma flag_01: "(x::int) = 0 \<or> x = 1 \<Longrightarrow> x AND 1 = x \<and> x AND 2 = 0 \<and> x AND 4 = 0"
  by auto

subsection \<open>Vertex deletion\<close>




text \<open>
  Claim C9. Deleting the initial state must leave no initial state, for \<^verbatim>\<open>DeleteVertex\<close> as
  for \<^verbatim>\<open>DeleteVertexOP\<close>. On the two-state automaton with initial state \<open>1\<close>, the in-place
  \<^verbatim>\<open>DeleteVertexOP\<close> clears the initial state, and \<^verbatim>\<open>DeleteVertex\<close> instead returns an
  automaton whose initial state is \<open>0\<close>, the other state.
\<close>

theorem DeleteVertex_keeps_deleted_initial:
  "i_of (DeleteVertex (ex_two\<lparr>i_of := 1\<rparr>) 1) = 0 \<and>
   i_of (DeleteVertexOP (ex_two\<lparr>i_of := 1\<rparr>) 1) = -1"
  by (simp add: DeleteVertex_def DeleteVertexOP_def ex_two_def n_of_def ge01_def Let_def)

subsection \<open>Completion\<close>

lemma Complete_row_fields [simp]:
  "n_of (fst (fold (Complete_cell ne s) js st)) = n_of (fst st)"
  "na_of (fst (fold (Complete_cell ne s) js st)) = na_of (fst st)"
  "i_of (fst (fold (Complete_cell ne s) js st)) = i_of (fst st)"
  "get_final (fst (fold (Complete_cell ne s) js st)) s' = get_final (fst st) s'"
  "length (f_of (e_of (fst (fold (Complete_cell ne s) js st)) ! s')) = length (f_of (e_of (fst st) ! s'))"
  by (induction js arbitrary: st; simp add: Complete_cell_def split: prod.splits)+

lemma Complete_row_other:
  "s' \<noteq> s \<Longrightarrow> get_f (fst (fold (Complete_cell ne s) js st)) s' j' = get_f (fst st) s' j'"
  by (induction js arbitrary: st) (simp_all add: Complete_cell_def get_f_set_f split: prod.splits)

lemma Complete_row:
  assumes "s < n_of (fst st)" "k \<le> length (f_of (e_of (fst st) ! s))"
  shows "(\<forall>j'. get_f (fst (fold (Complete_cell ne s) [0..<k] st)) s j' =
           (if j' < k \<and> get_f (fst st) s j' = -1 then int ne else get_f (fst st) s j')) \<and>
         snd (fold (Complete_cell ne s) [0..<k] st) = (snd st \<or> (\<exists>j < k. get_f (fst st) s j = -1))"
  using assms
proof (induction k)
  case 0
  show ?case by simp
next
  case (Suc k)
  obtain a' b' where st': "fold (Complete_cell ne s) [0..<k] st = (a', b')"
    by (cases "fold (Complete_cell ne s) [0..<k] st")
  have step: "fold (Complete_cell ne s) [0..<Suc k] st = Complete_cell ne s k (a', b')"
    by (simp add: st')
  have a': "get_f a' s j = (if j < k \<and> get_f (fst st) s j = -1 then int ne else get_f (fst st) s j)" for j
    using Suc st' by simp
  have b': "b' = (snd st \<or> (\<exists>j < k. get_f (fst st) s j = -1))"
    using Suc st' by simp
  have n': "s < n_of a'" "k < length (f_of (e_of a' ! s))"
    using Suc.prems Complete_row_fields(1,5) [of ne s "[0..<k]" st] st'
    by (simp_all del: Complete_row_fields)
  show ?case
    unfolding step using a' b' n'
    by (auto simp: Complete_cell_def get_f_set_f less_Suc_eq)
qed

lemma Complete_rows_fields [simp]:
  "n_of (fst (fold (\<lambda>s st. fold (Complete_cell ne s) [0..<na_of (fst st)] st) ss st)) = n_of (fst st)"
  "na_of (fst (fold (\<lambda>s st. fold (Complete_cell ne s) [0..<na_of (fst st)] st) ss st)) = na_of (fst st)"
  "i_of (fst (fold (\<lambda>s st. fold (Complete_cell ne s) [0..<na_of (fst st)] st) ss st)) = i_of (fst st)"
  "get_final (fst (fold (\<lambda>s st. fold (Complete_cell ne s) [0..<na_of (fst st)] st) ss st)) s'
     = get_final (fst st) s'"
  "length (f_of (e_of (fst (fold (\<lambda>s st. fold (Complete_cell ne s) [0..<na_of (fst st)] st) ss st)) ! s'))
     = length (f_of (e_of (fst st) ! s'))"
  by (induction ss arbitrary: st; simp)+

lemma Complete_rows:
  assumes "m \<le> n_of (fst st)" "\<forall>s < m. length (f_of (e_of (fst st) ! s)) = na_of (fst st)"
  shows "(\<forall>s' j'. get_f (fst (fold (\<lambda>s st. fold (Complete_cell ne s) [0..<na_of (fst st)] st) [0..<m] st)) s' j' =
           (if s' < m \<and> j' < na_of (fst st) \<and> get_f (fst st) s' j' = -1 then int ne
            else get_f (fst st) s' j')) \<and>
         snd (fold (\<lambda>s st. fold (Complete_cell ne s) [0..<na_of (fst st)] st) [0..<m] st) =
           (snd st \<or> (\<exists>s < m. \<exists>j < na_of (fst st). get_f (fst st) s j = -1))"
  using assms
proof (induction m)
  case 0
  show ?case by simp
next
  case (Suc m)
  let ?st = "fold (\<lambda>s st. fold (Complete_cell ne s) [0..<na_of (fst st)] st) [0..<m] st"
  have pre: "m < n_of (fst ?st)" "na_of (fst ?st) \<le> length (f_of (e_of (fst ?st) ! m))"
    "na_of (fst ?st) = na_of (fst st)"
    using Suc.prems by simp_all
  have old: "get_f (fst ?st) s j = (if s < m \<and> j < na_of (fst st) \<and> get_f (fst st) s j = -1
       then int ne else get_f (fst st) s j)" for s j
    using Suc by simp
  have oldb: "snd ?st = (snd st \<or> (\<exists>s < m. \<exists>j < na_of (fst st). get_f (fst st) s j = -1))"
    using Suc by simp
  have step: "fold (\<lambda>s st. fold (Complete_cell ne s) [0..<na_of (fst st)] st) [0..<Suc m] st
      = fold (Complete_cell ne m) [0..<na_of (fst st)] ?st"
    by (simp add: pre(3))
  note row = Complete_row [OF pre(1,2), of ne, unfolded pre(3)]
  have cells: "get_f (fst (fold (Complete_cell ne m) [0..<na_of (fst st)] ?st)) s' j' =
           (if s' < Suc m \<and> j' < na_of (fst st) \<and> get_f (fst st) s' j' = -1 then int ne
            else get_f (fst st) s' j')" for s' j'
  proof (cases "s' = m")
    case True
    then show ?thesis using row by (simp add: old)
  next
    case False
    then show ?thesis by (auto simp: Complete_row_other old less_Suc_eq)
  qed
  have flag: "snd (fold (Complete_cell ne m) [0..<na_of (fst st)] ?st) =
           (snd st \<or> (\<exists>s < Suc m. \<exists>j < na_of (fst st). get_f (fst st) s j = -1))"
    using row by (auto simp: old oldb less_Suc_eq)
  show ?case unfolding step using cells flag by blast
qed

lemma AddEtat_obs:
  "n_of (AddEtat a v) = n_of a + 1" "na_of (AddEtat a v) = na_of a" "i_of (AddEtat a v) = i_of a"
  "s < n_of a \<Longrightarrow> get_f (AddEtat a v) s j = get_f a s j"
  "s < n_of a \<Longrightarrow> get_final (AddEtat a v) s = get_final a s"
  "s < n_of a \<Longrightarrow> length (f_of (e_of (AddEtat a v) ! s)) = length (f_of (e_of a ! s))"
  "j < na_of a \<Longrightarrow> get_f (AddEtat a v) (n_of a) j = -1"
  "get_final (AddEtat a v) (n_of a) = v"
  "length (f_of (e_of (AddEtat a v) ! n_of a)) = na_of a"
proof -
  let ?a1 = "a\<lparr>e_of := e_of a @ [\<lparr>f_of = replicate (na_of a) 0, final_of = 0\<rparr>]\<rparr>"
  have a1: "n_of ?a1 = n_of a + 1" "na_of ?a1 = na_of a" "i_of ?a1 = i_of a"
    "length (f_of (e_of ?a1 ! n_of a)) = na_of a"
    by (simp_all add: n_of_def)
  have a1s: "get_f ?a1 s j = get_f a s j" "get_final ?a1 s = get_final a s"
    "length (f_of (e_of ?a1 ! s)) = length (f_of (e_of a ! s))" if "s < n_of a" for s j
    using that by (simp_all add: n_of_def get_f_def get_final_def nth_append)
  have eq: "AddEtat a v = set_final (fold (\<lambda>j r. set_f r (n_of a) j (-1)) [0..<na_of a] ?a1) (n_of a) v"
    by (simp add: AddEtat_def Let_def n_of_def)
  show "n_of (AddEtat a v) = n_of a + 1" "na_of (AddEtat a v) = na_of a"
    "i_of (AddEtat a v) = i_of a"
    "get_final (AddEtat a v) (n_of a) = v"
    "length (f_of (e_of (AddEtat a v) ! n_of a)) = na_of a"
    unfolding eq using a1 by (simp_all add: get_final_set_final)
  show "s < n_of a \<Longrightarrow> get_f (AddEtat a v) s j = get_f a s j"
    unfolding eq by (simp add: fold_set_f_other a1s)
  show "s < n_of a \<Longrightarrow> get_final (AddEtat a v) s = get_final a s"
    unfolding eq by (simp add: get_final_set_final a1s)
  show "s < n_of a \<Longrightarrow> length (f_of (e_of (AddEtat a v) ! s)) = length (f_of (e_of a ! s))"
    unfolding eq by (simp add: n_of_def nth_append)
  show "j < na_of a \<Longrightarrow> get_f (AddEtat a v) (n_of a) j = -1"
    unfolding eq using a1 by (simp add: fold_fill_row)
qed

lemma CompleteAutomaton_unfold:
  assumes "wf_rows a"
  defines "a1 \<equiv> fst (fold (\<lambda>s st. fold (Complete_cell (n_of a) s) [0..<na_of (fst st)] st)
                         [0..<n_of a] (a, False))"
  shows "n_of a1 = n_of a" "na_of a1 = na_of a" "i_of a1 = i_of a"
    "\<And>s. get_final a1 s = get_final a s"
    "\<And>s. length (f_of (e_of a1 ! s)) = length (f_of (e_of a ! s))"
    "\<And>s j. get_f a1 s j = (if s < n_of a \<and> j < na_of a \<and> get_f a s j = -1 then int (n_of a)
                              else get_f a s j)"
    "snd (fold (\<lambda>s st. fold (Complete_cell (n_of a) s) [0..<na_of (fst st)] st)
                         [0..<n_of a] (a, False)) = (\<exists>s < n_of a. \<exists>j < na_of a. get_f a s j = -1)"
proof -
  have pre: "n_of a \<le> n_of (fst (a, False))"
    "\<forall>s < n_of a. length (f_of (e_of (fst (a, False)) ! s)) = na_of (fst (a, False))"
    using assms(1) by (simp_all add: wf_rows_def)
  note rows = Complete_rows [OF pre, of "n_of a"]
  show "n_of a1 = n_of a" "na_of a1 = na_of a" "i_of a1 = i_of a"
    "\<And>s. get_final a1 s = get_final a s"
    "\<And>s. length (f_of (e_of a1 ! s)) = length (f_of (e_of a ! s))"
    by (simp_all add: a1_def)
  show "\<And>s j. get_f a1 s j = (if s < n_of a \<and> j < na_of a \<and> get_f a s j = -1 then int (n_of a)
                              else get_f a s j)"
    using rows by (simp add: a1_def)
  show "snd (fold (\<lambda>s st. fold (Complete_cell (n_of a) s) [0..<na_of (fst st)] st)
                         [0..<n_of a] (a, False)) = (\<exists>s < n_of a. \<exists>j < na_of a. get_f a s j = -1)"
    using rows by simp
qed

lemma CompleteAutomaton_complete:
  assumes "wf_rows a" "\<not> missing a"
  shows "CompleteAutomaton a = (False, a)"
proof -
  obtain a1 b1 where st: "fold (\<lambda>s st. fold (Complete_cell (n_of a) s) [0..<na_of (fst st)] st)
                         [0..<n_of a] (a, False) = (a1, b1)"
    by (cases "fold (\<lambda>s st. fold (Complete_cell (n_of a) s) [0..<na_of (fst st)] st)
                         [0..<n_of a] (a, False)")
  note u = CompleteAutomaton_unfold [OF assms(1), unfolded st fst_conv snd_conv]
  have nm: "\<forall>s < n_of a. \<forall>j < na_of a. get_f a s j \<noteq> -1" "i_of a \<noteq> -1"
    using assms(2) by (auto simp: missing_def)
  have "a1 = a"
  proof (rule Automaton_eqI)
    fix s assume s: "s < n_of a1"
    show "f_of (e_of a1 ! s) = f_of (e_of a ! s)"
    proof (rule nth_equalityI)
      show "length (f_of (e_of a1 ! s)) = length (f_of (e_of a ! s))" by (rule u(5))
      fix j assume "j < length (f_of (e_of a1 ! s))"
      then have "j < na_of a" using s u(1,5) assms(1) by (simp add: wf_rows_def)
      then show "f_of (e_of a1 ! s) ! j = f_of (e_of a ! s) ! j"
        using u(6) [of s j] nm s u(1) by (simp add: get_f_def)
    qed
  qed (simp_all add: u)
  moreover have "\<not> b1" using u(7) nm by auto
  ultimately show ?thesis
    using nm(2) by (simp add: CompleteAutomaton_def Let_def st)
qed

lemma CompleteAutomaton_missing:
  assumes "wf_rows a" "missing a"
  defines "r \<equiv> snd (CompleteAutomaton a)"
  shows "fst (CompleteAutomaton a)" "n_of r = n_of a + 1" "na_of r = na_of a"
    "i_of r = (if i_of a = -1 then int (n_of a) else i_of a)"
    "get_final r (n_of a) = 0"
    "\<And>j. j < na_of a \<Longrightarrow> get_f r (n_of a) j = int (n_of a)"
    "\<And>s. s < n_of a \<Longrightarrow> get_final r s = get_final a s"
    "\<And>s j. s < n_of a \<Longrightarrow> j < na_of a \<Longrightarrow>
        get_f r s j = (if get_f a s j = -1 then int (n_of a) else get_f a s j)"
proof -
  obtain a1 b1 where st: "fold (\<lambda>s st. fold (Complete_cell (n_of a) s) [0..<na_of (fst st)] st)
                         [0..<n_of a] (a, False) = (a1, b1)"
    by (cases "fold (\<lambda>s st. fold (Complete_cell (n_of a) s) [0..<na_of (fst st)] st)
                         [0..<n_of a] (a, False)")
  note u = CompleteAutomaton_unfold [OF assms(1), unfolded st fst_conv snd_conv]
  define a2 where "a2 = (if i_of a1 = -1 then a1\<lparr>i_of := int (n_of a)\<rparr> else a1)"
  have a2: "n_of a2 = n_of a" "na_of a2 = na_of a"
    "i_of a2 = (if i_of a = -1 then int (n_of a) else i_of a)"
    "\<And>s. get_final a2 s = get_final a s" "\<And>s j. get_f a2 s j = get_f a1 s j"
    by (simp_all add: a2_def u)
  have add2: "b1 \<or> i_of a1 = -1"
    using assms(2) u by (auto simp: missing_def)
  define a3 where "a3 = AddEtat a2 0"
  define a4 where "a4 = fold (\<lambda>j r. set_f r (n_of a) j (int (n_of a))) [0..<na_of a] a3"
  have res: "CompleteAutomaton a = (True, a4)"
  proof -
    have "i_of a4 \<noteq> -1"
      by (simp add: a4_def a3_def AddEtat_obs a2)
    then show ?thesis
      using add2
      by (auto simp: CompleteAutomaton_def Let_def st a2_def a3_def a4_def AddEtat_obs u)
  qed
  have a3n: "n_of a < n_of a3" "na_of a \<le> length (f_of (e_of a3 ! n_of a))"
    using AddEtat_obs(1,9) [of a2 0] by (simp_all add: a3_def a2)
  show "fst (CompleteAutomaton a)" by (simp add: res)
  show "n_of r = n_of a + 1" "na_of r = na_of a"
    "i_of r = (if i_of a = -1 then int (n_of a) else i_of a)"
    by (simp_all add: r_def res a4_def a3_def AddEtat_obs a2)
  show "get_final r (n_of a) = 0"
    using AddEtat_obs(8) [of a2 0] by (simp add: r_def res a4_def a3_def a2)
  show "\<And>j. j < na_of a \<Longrightarrow> get_f r (n_of a) j = int (n_of a)"
    using a3n by (simp add: r_def res a4_def fold_fill_row)
  show "\<And>s. s < n_of a \<Longrightarrow> get_final r s = get_final a s"
    using AddEtat_obs(5) [of _ a2 0] by (simp add: r_def res a4_def a3_def a2)
  show "\<And>s j. s < n_of a \<Longrightarrow> j < na_of a \<Longrightarrow>
        get_f r s j = (if get_f a s j = -1 then int (n_of a) else get_f a s j)"
    using AddEtat_obs(4) [of _ a2 0] by (simp add: r_def res a4_def a3_def a2 fold_set_f_other u)
qed

text \<open>
  Claim C6. \<^verbatim>\<open>CompleteAutomaton\<close> returns true exactly when a transition or the initial
  state of the automaton is missing. In that case the result has one more state, the
  sink: it is not final and loops to itself on every letter, every transition that was
  absent now leads to it, the other transitions and the finality of the old states are
  kept, and it is the initial state when there was none. Otherwise the automaton is
  returned as it was.
\<close>

theorem CompleteAutomaton_spec:
  assumes "wf_rows a"
  shows "fst (CompleteAutomaton a) = missing a \<and>
    (\<not> missing a \<longrightarrow> snd (CompleteAutomaton a) = a) \<and>
    (missing a \<longrightarrow>
      (let r = snd (CompleteAutomaton a); ne = n_of a in
        n_of r = ne + 1 \<and> na_of r = na_of a \<and>
        get_final r ne = 0 \<and> (\<forall>j < na_of a. get_f r ne j = int ne) \<and>
        (\<forall>s < ne. get_final r s = get_final a s \<and>
           (\<forall>j < na_of a. get_f r s j = (if get_f a s j = -1 then int ne else get_f a s j))) \<and>
        i_of r = (if i_of a = -1 then int ne else i_of a)))"
proof (cases "missing a")
  case True
  note m = CompleteAutomaton_missing [OF assms True]
  show ?thesis
    unfolding Let_def using True m(1) m(2) m(3) m(4) m(5) m(6) m(7) m(8) by simp
next
  case False
  then show ?thesis
    using CompleteAutomaton_complete [OF assms False] by simp
qed

theorem CompleteAutomaton_spec_witness:
  "wf_rows ex_two \<and> \<not> missing ex_two \<and> CompleteAutomaton ex_two = (False, ex_two) \<and>
   wf_rows ex_lack \<and> missing ex_lack \<and> fst (CompleteAutomaton ex_lack) \<and>
   n_of (snd (CompleteAutomaton ex_lack)) = 3 \<and> get_f (snd (CompleteAutomaton ex_lack)) 0 0 = 2 \<and>
   get_f (snd (CompleteAutomaton ex_lack)) 2 1 = 2 \<and> i_of (snd (CompleteAutomaton ex_lack)) = 0"
proof -
  have two: "n_of ex_two = 2" "na_of ex_two = 2"
    by (simp_all add: ex_two_def n_of_def)
  have lack: "n_of ex_lack = 2" "na_of ex_lack = 2" "get_f ex_lack 0 0 = -1" "i_of ex_lack = 0"
    by (simp_all add: ex_lack_def n_of_def get_f_def)
  have w1: "wf_rows ex_two"
    by (simp add: wf_rows_def ex_two_def n_of_def All_less_Suc numeral_2_eq_2)
  have w2: "wf_rows ex_lack"
    by (simp add: wf_rows_def ex_lack_def n_of_def All_less_Suc numeral_2_eq_2)
  have m1: "\<not> missing ex_two"
    by (simp add: missing_def ex_two_def n_of_def get_f_def All_less_Suc Ex_less_Suc numeral_2_eq_2)
  have m2: "missing ex_lack"
    by (simp add: missing_def ex_lack_def n_of_def get_f_def All_less_Suc Ex_less_Suc numeral_2_eq_2)
  have r1: "CompleteAutomaton ex_two = (False, ex_two)"
    using CompleteAutomaton_spec [OF w1] m1 by (simp add: prod_eq_iff)
  from CompleteAutomaton_spec [OF w2] m2
  have r2: "fst (CompleteAutomaton ex_lack)"
    and n: "n_of (snd (CompleteAutomaton ex_lack)) = n_of ex_lack + 1"
    and sink: "\<forall>j < na_of ex_lack. get_f (snd (CompleteAutomaton ex_lack)) (n_of ex_lack) j = int (n_of ex_lack)"
    and cells: "\<forall>s < n_of ex_lack. \<forall>j < na_of ex_lack. get_f (snd (CompleteAutomaton ex_lack)) s j =
        (if get_f ex_lack s j = -1 then int (n_of ex_lack) else get_f ex_lack s j)"
    and ini: "i_of (snd (CompleteAutomaton ex_lack)) = (if i_of ex_lack = -1 then int (n_of ex_lack) else i_of ex_lack)"
    by (simp_all add: Let_def)
  show ?thesis
    using w1 w2 m1 m2 r1 r2 n sink [rule_format, of 1] cells [rule_format, of 0 0] ini
    by (simp add: lack)
qed

subsection \<open>Runs\<close>

lemma run_absent [simp]: "run a (-1) w = -1"
  by (cases w) simp_all

lemma no_initial_empty:
  assumes "i_of a = -1"
  shows "Language a = {}" "reachable_states a = {}"
  using assms by (auto simp: Language_def accepts_def reachable_states_def)

subsection \<open>Product\<close>

text \<open>
  Claim C7. When one of the two automata has no initial state, \<^verbatim>\<open>Product\<close> returns at once
  the automaton it has just initialised: it has no initial state, so that no word is
  accepted and no state is reachable.
\<close>

theorem Product_no_initial:
  assumes "i_of a1 = -1 \<or> i_of a2 = -1"
  shows "\<exists>r. Product a1 a2 d = Some r \<and> i_of r = -1 \<and> Language r = {} \<and> reachable_states r = {}"
proof -
  let ?r = "(init (NewAutomaton (n_of a1 * n_of a2) (nat (Product_na d))))\<lparr>i_of := -1\<rparr>"
  have "Product a1 a2 d = Some ?r"
    using assms by (auto simp: Product_def Let_def)
  moreover have "i_of ?r = -1" by simp
  ultimately show ?thesis
    using no_initial_empty [of ?r] by simp
qed

theorem Product_no_initial_witness:
  "(i_of (ex_two\<lparr>i_of := -1\<rparr>) = -1 \<or> i_of ex_two = -1) \<and>
   (\<exists>r. Product (ex_two\<lparr>i_of := -1\<rparr>) ex_two [0, 1, 1, 1] = Some r \<and> i_of r = -1 \<and>
        Language r = {} \<and> reachable_states r = {})"
  using Product_no_initial [of "ex_two\<lparr>i_of := -1\<rparr>" ex_two "[0, 1, 1, 1]"] by simp

subsection \<open>Bounds of \<^verbatim>\<open>emondeI\<close>\<close>

text \<open>
  Claim C10. Every access of \<^verbatim>\<open>emondeI\<close> to an array of states should be within bounds.
  On the automaton \<open>ex_unreach\<close>, whose state \<open>1\<close> cannot be reached, the last loop writes
  the finality of state \<open>1\<close> to \<^verbatim>\<open>r.e[l[1]]\<close> with \<^verbatim>\<open>l[1] = -1\<close>, outside the states of \<^verbatim>\<open>r\<close>.
\<close>

theorem emondeI_writes_out_of_bounds: "emondeI ex_unreach = Inl OutOfBounds"
  by code_simp

subsection \<open>Renumbering the kept states\<close>

lemma kept_below_Suc:
  "kept_below keep a (Suc k) = (if keep (get_final a k) then kept_below keep a k + 1 else kept_below keep a k)"
proof -
  have "{t. t < Suc k \<and> keep (get_final a t)} =
        (if keep (get_final a k) then insert k {t. t < k \<and> keep (get_final a t)}
         else {t. t < k \<and> keep (get_final a t)})"
    by (auto simp: less_Suc_eq)
  then show ?thesis by (simp add: kept_below_def)
qed

lemma kept_below_mono: "i \<le> j \<Longrightarrow> kept_below keep a i \<le> kept_below keep a j"
  unfolding kept_below_def by (rule card_mono) auto

lemma kept_below_less:
  assumes "s < t" "keep (get_final a s)"
  shows "kept_below keep a s < kept_below keep a t"
proof -
  have "kept_below keep a s < kept_below keep a (Suc s)"
    using assms(2) by (simp add: kept_below_Suc)
  also have "\<dots> \<le> kept_below keep a t"
    using assms(1) by (intro kept_below_mono) simp
  finally show ?thesis .
qed

lemma renumber_prefix:
  assumes "k \<le> n_of a" "length l0 = n_of a"
  shows "fold (\<lambda>s (l, cpt). if keep (get_final a s) then (l[s := int cpt], cpt + 1)
                              else (l[s := -1], cpt)) [0..<k] (l0, 0)
         = (map (\<lambda>s. if s < k then (if keep (get_final a s) then int (kept_below keep a s) else -1)
                      else l0 ! s) [0..<n_of a],
            kept_below keep a k)"
  using assms(1)
proof (induction k)
  case 0
  have "map ((!) l0) [0..<n_of a] = l0"
    using assms(2) map_nth [of l0] by simp
  then show ?case by (simp add: kept_below_def)
next
  case (Suc k)
  have k: "k < n_of a" using Suc.prems by simp
  have upd: "(map f [0..<n_of a])[k := v] = map (\<lambda>s. if s = k then v else f s) [0..<n_of a]"
    for f :: "nat \<Rightarrow> int" and v
    using k by (intro nth_equalityI) (auto simp: nth_list_update)
  show ?case
    using Suc.IH k
    by (auto simp: kept_below_Suc upd less_Suc_eq intro!: map_cong)
qed

lemma renumber_eq:
  "renumber keep a =
     (map (\<lambda>s. if keep (get_final a s) then int (kept_below keep a s) else -1) [0..<n_of a],
      kept_below keep a (n_of a))"
  unfolding renumber_def
  by (subst renumber_prefix) (auto intro!: map_cong)

subsection \<open>The rows of a pruned automaton\<close>

lemma prune_cell_eq: "prune_cell a l s j r = set_f r (nat (l ! s)) j (prune_val a l s j)"
proof -
  have "set_f (set_f r x j (-1)) x j v = set_f r x j v" for x v
    by (cases "x < length (e_of r)"; cases "j < length (f_of (e_of r ! x))")
       (simp_all add: set_f_def list_update_beyond)
  then show ?thesis
    by (auto simp: prune_cell_def prune_val_def Let_def)
qed

lemma prune_rows_fields [simp]:
  "n_of (prune_rows a l r) = n_of r" "na_of (prune_rows a l r) = na_of r"
  "i_of (prune_rows a l r) = i_of r" "get_final (prune_rows a l r) x = get_final r x"
  "length (f_of (e_of (prune_rows a l r) ! x)) = length (f_of (e_of r ! x))"
proof -
  have inner: "fold (prune_cell a l s) js r = fold (\<lambda>j r. set_f r (nat (l ! s)) j (prune_val a l s j)) js r"
    for s js r
    by (rule fold_cong) (simp_all add: prune_cell_eq fun_eq_iff)
  have "n_of (fold (\<lambda>s r. if l ! s = -1 then r else fold (prune_cell a l s) [0..<na_of a] r) ss r) = n_of r \<and>
        na_of (fold (\<lambda>s r. if l ! s = -1 then r else fold (prune_cell a l s) [0..<na_of a] r) ss r) = na_of r \<and>
        i_of (fold (\<lambda>s r. if l ! s = -1 then r else fold (prune_cell a l s) [0..<na_of a] r) ss r) = i_of r \<and>
        get_final (fold (\<lambda>s r. if l ! s = -1 then r else fold (prune_cell a l s) [0..<na_of a] r) ss r) x = get_final r x \<and>
        length (f_of (e_of (fold (\<lambda>s r. if l ! s = -1 then r else fold (prune_cell a l s) [0..<na_of a] r) ss r) ! x))
          = length (f_of (e_of r ! x))" for ss
    by (induction ss arbitrary: r) (simp_all add: inner)
  then show "n_of (prune_rows a l r) = n_of r" "na_of (prune_rows a l r) = na_of r"
    "i_of (prune_rows a l r) = i_of r" "get_final (prune_rows a l r) x = get_final r x"
    "length (f_of (e_of (prune_rows a l r) ! x)) = length (f_of (e_of r ! x))"
    unfolding prune_rows_def by blast+
qed

lemma renumberingD:
  assumes "renumbering n l cpt" "s < n" "l ! s \<noteq> -1"
  shows "0 \<le> l ! s" "nat (l ! s) < cpt" "t < n \<Longrightarrow> s \<noteq> t \<Longrightarrow> nat (l ! s) \<noteq> nat (l ! t) \<or> l ! t = -1"
proof -
  show a: "0 \<le> l ! s" and "nat (l ! s) < cpt"
    using assms unfolding renumbering_def by force+
  assume t: "t < n" "s \<noteq> t"
  then have "l ! s \<noteq> l ! t" using assms unfolding renumbering_def by blast
  moreover have "l ! t = -1 \<or> 0 \<le> l ! t" using assms(1) t(1) unfolding renumbering_def by blast
  ultimately show "nat (l ! s) \<noteq> nat (l ! t) \<or> l ! t = -1" using a by auto
qed

lemma renumber_renumbering:
  assumes "renumber keep a = (l, cpt)"
  shows "renumbering (n_of a) l cpt"
    and "\<And>s. s < n_of a \<Longrightarrow> l ! s = (if keep (get_final a s) then int (kept_below keep a s) else -1)"
    and "cpt = kept_below keep a (n_of a)"
proof -
  have l: "l = map (\<lambda>s. if keep (get_final a s) then int (kept_below keep a s) else -1) [0..<n_of a]"
    and c: "cpt = kept_below keep a (n_of a)"
    using assms unfolding renumber_eq by simp_all
  show ls: "l ! s = (if keep (get_final a s) then int (kept_below keep a s) else -1)" if "s < n_of a" for s
    using that by (simp add: l)
  show "cpt = kept_below keep a (n_of a)" by (rule c)
  show "renumbering (n_of a) l cpt"
    unfolding renumbering_def
  proof (intro conjI allI impI)
    show "length l = n_of a" by (simp add: l)
  next
    fix s assume s: "s < n_of a"
    show "l ! s = -1 \<or> (0 \<le> l ! s \<and> l ! s < int cpt)"
      using kept_below_less [of s "n_of a" keep a] s by (auto simp: ls c)
  next
    fix s t assume st: "s < n_of a" "t < n_of a" "s \<noteq> t" "l ! s \<noteq> -1"
    then have ks: "keep (get_final a s)" by (auto simp: ls split: if_splits)
    show "l ! s \<noteq> l ! t"
    proof (cases "keep (get_final a t)")
      case True
      then show ?thesis
        using kept_below_less [of s t keep a] kept_below_less [of t s keep a] st ks
        by (cases "s < t") (auto simp: ls)
    next
      case False
      then show ?thesis using st by (simp add: ls)
    qed
  qed
qed

lemma prune_rows_cells:
  assumes ren: "renumbering n l (n_of r)" and n: "n = n_of a"
    and rows: "\<forall>x < n_of r. length (f_of (e_of r ! x)) = na_of a"
    and s: "s < n" "l ! s \<noteq> -1" and j: "j < na_of a"
  shows "get_f (prune_rows a l r) (nat (l ! s)) j = prune_val a l s j"
proof -
  let ?body = "\<lambda>s r. if l ! s = -1 then r else fold (prune_cell a l s) [0..<na_of a] r"
  have inner: "fold (prune_cell a l s) js r = fold (\<lambda>j r. set_f r (nat (l ! s)) j (prune_val a l s j)) js r"
    for s js r
    by (rule fold_cong) (simp_all add: prune_cell_eq fun_eq_iff)
  have fields: "n_of (fold ?body ss r) = n_of r \<and>
      (\<forall>x. length (f_of (e_of (fold ?body ss r) ! x)) = length (f_of (e_of r ! x)))" for ss r
    by (induction ss arbitrary: r) (simp_all add: inner)
  have "k \<le> n \<Longrightarrow> \<forall>s < k. l ! s \<noteq> -1 \<longrightarrow>
          (\<forall>j < na_of a. get_f (fold ?body [0..<k] r) (nat (l ! s)) j = prune_val a l s j)" for k
  proof (induction k)
    case 0
    show ?case by simp
  next
    case (Suc k)
    let ?r = "fold ?body [0..<k] r"
    have k: "k < n" using Suc.prems by simp
    have IH: "\<forall>s < k. l ! s \<noteq> -1 \<longrightarrow> (\<forall>j < na_of a. get_f ?r (nat (l ! s)) j = prune_val a l s j)"
      using Suc by simp
    show ?case
    proof (cases "l ! k = -1")
      case True
      then show ?thesis using IH by (auto simp: less_Suc_eq)
    next
      case False
      have row: "nat (l ! k) < n_of ?r" "na_of a \<le> length (f_of (e_of ?r ! nat (l ! k)))"
        using renumberingD(2) [OF ren k False] fields [of "[0..<k]" r] rows by simp_all
      show ?thesis
      proof (intro allI impI)
        fix s j assume sj: "s < Suc k" "l ! s \<noteq> -1" "j < na_of a"
        show "get_f (fold ?body [0..<Suc k] r) (nat (l ! s)) j = prune_val a l s j"
        proof (cases "s = k")
          case True
          then show ?thesis
            using False sj(3) fold_fill_row [OF row, of "prune_val a l k" j]
            by (simp add: inner)
        next
          case False
          then have sk: "s < k" using sj(1) by simp
          then have "nat (l ! s) \<noteq> nat (l ! k)"
            using renumberingD(3) [OF ren _ sj(2), of k] k \<open>l ! k \<noteq> -1\<close> by auto
          then show ?thesis
            using IH sk sj \<open>l ! k \<noteq> -1\<close> by (simp add: inner fold_set_f_other)
        qed
      qed
    qed
  qed
  from this [of n] show ?thesis
    using s j by (simp add: prune_rows_def n)
qed

subsection \<open>Loops over the finality fields\<close>

lemma fold_set_final_fields [simp]:
  "n_of (fold (\<lambda>s a. set_final a s (h s a)) ss a) = n_of a"
  "na_of (fold (\<lambda>s a. set_final a s (h s a)) ss a) = na_of a"
  "i_of (fold (\<lambda>s a. set_final a s (h s a)) ss a) = i_of a"
  "f_of (e_of (fold (\<lambda>s a. set_final a s (h s a)) ss a) ! x) = f_of (e_of a ! x)"
  by (induction ss arbitrary: a; simp)+

lemma fold_set_final_get_f [simp]:
  "get_f (fold (\<lambda>s a. set_final a s (h s a)) ss a) x j = get_f a x j"
  by (simp add: get_f_def)

lemma fold_set_final_finals:
  assumes "k \<le> n_of a"
  shows "get_final (fold (\<lambda>s a. set_final a s (h s (get_final a s))) [0..<k] a) x =
           (if x < k then h x (get_final a x) else get_final a x)"
  using assms by (induction k) (auto simp: get_final_set_final less_Suc_eq)

lemma restore_finals_obs [simp]:
  "n_of (restore_finals a) = n_of a" "na_of (restore_finals a) = na_of a"
  "i_of (restore_finals a) = i_of a" "f_of (e_of (restore_finals a) ! x) = f_of (e_of a ! x)"
  "get_f (restore_finals a) x j = get_f a x j"
  by (simp_all add: restore_finals_def)

lemma restore_finals_final:
  "x < n_of a \<Longrightarrow> get_final (restore_finals a) x = get_final a x AND 1"
  unfolding restore_finals_def
  using fold_set_final_finals [of "n_of a" a "\<lambda>s v. v AND 1" x] by simp

lemma Automaton_same_rows_eqI:
  assumes "n_of a = n_of b" "na_of a = na_of b" "i_of a = i_of b"
    and "\<And>s. f_of (e_of a ! s) = f_of (e_of b ! s)"
    and "\<And>s. s < n_of a \<Longrightarrow> get_final a s = get_final b s"
  shows "(a::Automaton) = b"
  using assms by (intro Automaton_eqI) simp_all

lemma fold_pair_split:
  "fold (\<lambda>s (a, r). (F s a, H s r)) ss (a, r) = (fold F ss a, fold H ss r)"
  by (induction ss arbitrary: a r) simp_all

lemma fold_kept_finals_fields [simp]:
  "n_of (fold (\<lambda>s r. if l ! s \<noteq> -1 then set_final r (nat (l ! s)) (v s) else r) ss r) = n_of r"
  "na_of (fold (\<lambda>s r. if l ! s \<noteq> -1 then set_final r (nat (l ! s)) (v s) else r) ss r) = na_of r"
  "i_of (fold (\<lambda>s r. if l ! s \<noteq> -1 then set_final r (nat (l ! s)) (v s) else r) ss r) = i_of r"
  "get_f (fold (\<lambda>s r. if l ! s \<noteq> -1 then set_final r (nat (l ! s)) (v s) else r) ss r) x j = get_f r x j"
  by (induction ss arbitrary: r; simp)+

lemma fold_kept_finals:
  assumes ren: "renumbering n l (n_of r)" and s: "s < n" "l ! s \<noteq> -1"
  shows "get_final (fold (\<lambda>s r. if l ! s \<noteq> -1 then set_final r (nat (l ! s)) (v s) else r) [0..<n] r)
           (nat (l ! s)) = v s"
proof -
  let ?body = "\<lambda>s r. if l ! s \<noteq> -1 then set_final r (nat (l ! s)) (v s) else r"
  have "k \<le> n \<Longrightarrow> \<forall>s < k. l ! s \<noteq> -1 \<longrightarrow> get_final (fold ?body [0..<k] r) (nat (l ! s)) = v s" for k
  proof (induction k)
    case 0
    show ?case by simp
  next
    case (Suc k)
    have k: "k < n" using Suc.prems by simp
    show ?case
    proof (intro allI impI)
      fix s assume sk: "s < Suc k" "l ! s \<noteq> -1"
      show "get_final (fold ?body [0..<Suc k] r) (nat (l ! s)) = v s"
      proof (cases "s = k")
        case True
        then show ?thesis
          using sk renumberingD(2) [OF ren k] by (simp add: get_final_set_final)
      next
        case False
        then have "s < k" using sk by simp
        moreover have "l ! k \<noteq> -1 \<Longrightarrow> nat (l ! s) \<noteq> nat (l ! k)"
          using renumberingD(3) [OF ren _ sk(2), of k] k \<open>s < k\<close> by auto
        ultimately show ?thesis
          using Suc sk by (simp add: get_final_set_final)
      qed
    qed
  qed
  from this [of n] s show ?thesis by simp
qed

subsection \<open>Paths and cycles\<close>

lemma edgesI: "s < n_of a \<Longrightarrow> j < na_of a \<Longrightarrow> get_f a s j = int t \<Longrightarrow> (s, t) \<in> edges a"
  by (auto simp: edges_def)

lemma edges_target:
  assumes "wf_targets a" "(s, t) \<in> edges a"
  shows "s < n_of a" "t < n_of a"
  using assms by (fastforce simp: edges_def wf_targets_def)+

lemma rtrancl_edges_target:
  assumes "wf_targets a" "(s, t) \<in> (edges a)\<^sup>*" "s < n_of a"
  shows "t < n_of a"
  using assms(2,3) by (induction rule: rtrancl_induct) (auto dest: edges_target(2) [OF assms(1)])

lemma reaches_cycle_step:
  assumes "(s, t) \<in> edges a" "reaches_cycle a t"
  shows "reaches_cycle a s"
  using assms unfolding reaches_cycle_def by (meson converse_rtrancl_into_rtrancl)

lemma reaches_cycle_back:
  assumes "(s, t) \<in> edges a" "(t, s) \<in> (edges a)\<^sup>*"
  shows "reaches_cycle a s"
proof -
  have "(s, s) \<in> (edges a)\<^sup>+" using assms by (rule rtrancl_into_trancl2)
  then show ?thesis unfolding reaches_cycle_def by blast
qed

lemma reaches_cycle_succ:
  assumes "reaches_cycle a s"
  shows "\<exists>t. (s, t) \<in> edges a \<and> reaches_cycle a t"
proof -
  obtain c where c: "(s, c) \<in> (edges a)\<^sup>*" "(c, c) \<in> (edges a)\<^sup>+"
    using assms unfolding reaches_cycle_def by blast
  from c(1) show ?thesis
  proof (cases rule: converse_rtranclE)
    case base
    then obtain u where "(s, u) \<in> edges a" "(u, s) \<in> (edges a)\<^sup>*"
      using c(2) by (meson tranclD)
    then show ?thesis using c base unfolding reaches_cycle_def by blast
  next
    case (step u)
    then show ?thesis using c(2) unfolding reaches_cycle_def by blast
  qed
qed

lemma run_path:
  assumes "\<forall>k. (p k, p (Suc k)) \<in> edges a"
  shows "(p i, p (i + d)) \<in> (edges a)\<^sup>*"
  using assms by (induction d) (auto intro: rtrancl_into_rtrancl)

lemma infinite_run_iff:
  assumes "wf_targets a"
  shows "infinite_run a s = reaches_cycle a s"
proof
  assume "infinite_run a s"
  then obtain p where p: "p 0 = s" "\<forall>k. (p k, p (Suc k)) \<in> edges a"
    unfolding infinite_run_def by blast
  have rng: "p k < n_of a" for k
    using p(2) edges_target(1) [OF assms] by blast
  have "\<not> inj_on p {0..n_of a}"
  proof
    assume "inj_on p {0..n_of a}"
    then have "card (p ` {0..n_of a}) = n_of a + 1" by (simp add: card_image)
    moreover have "p ` {0..n_of a} \<subseteq> {..<n_of a}" using rng by auto
    then have "card (p ` {0..n_of a}) \<le> n_of a"
      by (metis card_lessThan card_mono finite_lessThan)
    ultimately show False by simp
  qed
  then obtain i j where ij: "i < j" "p i = p j"
    unfolding inj_on_def by (metis linorder_neqE_nat)
  have "(p (Suc i), p (Suc i + (j - Suc i))) \<in> (edges a)\<^sup>*"
    using run_path [OF p(2)] by blast
  then have "(p (Suc i), p i) \<in> (edges a)\<^sup>*" using ij by simp
  then have "(p i, p i) \<in> (edges a)\<^sup>+"
    using p(2) by (meson rtrancl_into_trancl2)
  moreover have "(s, p i) \<in> (edges a)\<^sup>*"
    using run_path [OF p(2), of 0 i] p(1) by simp
  ultimately show "reaches_cycle a s" unfolding reaches_cycle_def by blast
next
  assume "reaches_cycle a s"
  define nxt where "nxt u = (SOME t. (u, t) \<in> edges a \<and> reaches_cycle a t)" for u
  have nxt: "(u, nxt u) \<in> edges a \<and> reaches_cycle a (nxt u)" if "reaches_cycle a u" for u
    unfolding nxt_def using reaches_cycle_succ [OF that] by (rule someI_ex)
  define p where "p k = (nxt ^^ k) s" for k
  have "reaches_cycle a (p k)" for k
    by (induction k) (auto simp: p_def \<open>reaches_cycle a s\<close> nxt)
  then have "(p k, p (Suc k)) \<in> edges a" for k
    using nxt [of "p k"] by (simp add: p_def)
  moreover have "p 0 = s" by (simp add: p_def)
  ultimately show "infinite_run a s" unfolding infinite_run_def by blast
qed

subsection \<open>The exploration of \<^verbatim>\<open>emonde_inf\<close>\<close>

lemma same_graph_refl [simp]: "same_graph a a"
  by (simp add: same_graph_def)

lemma same_graph_set_final: "same_graph a m \<Longrightarrow> same_graph a (set_final m s v)"
  by (simp add: same_graph_def)

lemma same_graph_get_f: "same_graph a m \<Longrightarrow> get_f m s j = get_f a s j"
  by (simp add: same_graph_def get_f_def)

lemma inf_grow_refl: "inf_grow a m m r"
  by (simp add: inf_grow_def)

lemma inf_grow_trans:
  assumes "inf_grow a m m1 r" "inf_grow a m1 m2 t" "(r, t) \<in> (edges a)\<^sup>*"
  shows "inf_grow a m m2 r"
  unfolding inf_grow_def
proof (intro conjI allI impI)
  fix s assume s: "s < n_of a" "get_final m s \<noteq> 0"
  then show "get_final m2 s = get_final m s"
    using assms(1,2) unfolding inf_grow_def by metis
next
  fix s assume s: "s < n_of a" "get_final m s = 0" "get_final m2 s \<noteq> 0"
  show "(r, s) \<in> (edges a)\<^sup>*"
  proof (cases "get_final m1 s = 0")
    case True
    then have "(t, s) \<in> (edges a)\<^sup>*" using assms(2) s unfolding inf_grow_def by blast
    then show ?thesis using assms(3) by (rule rtrancl_trans [rotated])
  next
    case False
    then show ?thesis using assms(1) s unfolding inf_grow_def by blast
  qed
qed

lemma unseen_grow:
  assumes "inf_grow a m m' r" "n_of m = n_of a" "n_of m' = n_of a"
  shows "card (unseen m') \<le> card (unseen m)"
proof (rule card_mono)
  show "finite (unseen m)" by (simp add: unseen_def)
  show "unseen m' \<subseteq> unseen m"
    using assms unfolding unseen_def inf_grow_def by auto
qed

lemma unseen_mark:
  assumes "etat < n_of m" "get_final m etat = 0" "v \<noteq> 0"
  shows "card (unseen (set_final m etat v)) < card (unseen m)"
proof (rule psubset_card_mono)
  show "finite (unseen m)" by (simp add: unseen_def)
  have "etat \<in> unseen m" "etat \<notin> unseen (set_final m etat v)"
    using assms by (simp_all add: unseen_def get_final_set_final)
  moreover have "unseen (set_final m etat v) \<subseteq> unseen m"
    using assms by (auto simp: unseen_def get_final_set_final split: if_splits)
  ultimately show "unseen (set_final m etat v) \<subset> unseen m" by blast
qed

lemma inf_grow_root:
  assumes "inf_grow a m m' t" "(r, t) \<in> (edges a)\<^sup>*"
  shows "inf_grow a m m' r"
  using assms unfolding inf_grow_def by (meson rtrancl_trans)

lemma inf_inv_n: "inf_inv a m G \<Longrightarrow> n_of m = n_of a \<and> na_of m = na_of a \<and> i_of m = i_of a"
  by (simp add: inf_inv_def same_graph_def)

lemma inf_inv_get_f: "inf_inv a m G \<Longrightarrow> get_f m s j = get_f a s j"
  by (simp add: inf_inv_def same_graph_get_f)

lemma inf_inv_marks:
  "inf_inv a m G \<Longrightarrow> s < n_of a \<Longrightarrow> get_final m s = 0 \<or> get_final m s = 1 \<or> get_final m s = 2"
  by (simp add: inf_inv_def)

lemma inf_inv_grey: "inf_inv a m G \<Longrightarrow> g \<in> G \<Longrightarrow> g < n_of a \<and> get_final m g = 1"
  by (simp add: inf_inv_def)

lemma inf_inv_keep:
  "inf_inv a m G \<Longrightarrow> s < n_of a \<Longrightarrow> get_final m s = 1 \<Longrightarrow> s \<notin> G \<Longrightarrow> reaches_cycle a s"
  by (simp add: inf_inv_def)

lemma inf_inv_discard:
  "inf_inv a m G \<Longrightarrow> s < n_of a \<Longrightarrow> get_final m s = 2 \<Longrightarrow> \<not> reaches_cycle a s"
  by (simp add: inf_inv_def)

lemma inf_inv_closed:
  "inf_inv a m G \<Longrightarrow> s < n_of a \<Longrightarrow> get_final m s \<noteq> 0 \<Longrightarrow> s \<notin> G \<Longrightarrow> (s, t) \<in> edges a \<Longrightarrow>
     get_final m t \<noteq> 0"
  by (simp add: inf_inv_def)

lemma inf_grow_old:
  "inf_grow a m m' r \<Longrightarrow> s < n_of a \<Longrightarrow> get_final m s \<noteq> 0 \<Longrightarrow> get_final m' s = get_final m s"
  by (simp add: inf_grow_def)

lemma inf_grow_new:
  "inf_grow a m m' r \<Longrightarrow> s < n_of a \<Longrightarrow> get_final m s = 0 \<Longrightarrow> get_final m' s \<noteq> 0 \<Longrightarrow>
     (r, s) \<in> (edges a)\<^sup>*"
  by (simp add: inf_grow_def)

lemma inf_rec_okD:
  assumes "inf_rec_ok a k" "inf_inv a m G" "etat < n_of a" "get_final m etat = 0"
    "\<forall>g \<in> G. (g, etat) \<in> (edges a)\<^sup>*" "card (unseen m) \<le> k"
  obtains cyc m' c' where "emonde_inf_rec k (m, c) etat = Some (cyc, m', c')" "inf_inv a m' G"
    "inf_grow a m m' etat" "get_final m' etat = (if cyc then 1 else 2)"
proof -
  have "\<exists>cyc m' c'. emonde_inf_rec k (m, c) etat = Some (cyc, m', c') \<and> inf_inv a m' G \<and>
           inf_grow a m m' etat \<and> get_final m' etat = (if cyc then 1 else 2)"
    using assms(1) [unfolded inf_rec_ok_def, rule_format, of m G etat c] assms(2-6) by simp
  then show thesis using that by blast
qed

lemma seen_targets_tail:
  assumes "seen_targets a m etat cyc (i # js)" "get_f a etat i = -1"
  shows "seen_targets a m etat cyc js"
  unfolding seen_targets_def
proof (intro allI impI)
  fix j assume j: "j < na_of a" "j \<notin> set js" "get_f a etat j \<noteq> -1"
  then have "j \<notin> set (i # js)" using assms(2) by auto
  then show "get_final m (nat (get_f a etat j)) \<noteq> 0 \<and>
             (\<not> cyc \<longrightarrow> get_final m (nat (get_f a etat j)) = 2)"
    using assms(1) j(1,3) unfolding seen_targets_def by simp
qed

lemma seen_targetsD:
  assumes "seen_targets a m etat cyc js" "j < na_of a" "j \<notin> set js" "get_f a etat j \<noteq> -1"
  shows "get_final m (nat (get_f a etat j)) \<noteq> 0"
    "\<not> cyc \<Longrightarrow> get_final m (nat (get_f a etat j)) = 2"
  using assms unfolding seen_targets_def by simp_all

lemma target_in_range:
  assumes "wf_targets a" "s < n_of a" "j < na_of a" "get_f a s j \<noteq> -1"
  shows "nat (get_f a s j) < n_of a" "get_f a s j = int (nat (get_f a s j))"
    "(s, nat (get_f a s j)) \<in> edges a"
proof -
  have "-1 \<le> get_f a s j" "get_f a s j < int (n_of a)"
    using assms by (simp_all add: wf_targets_def)
  then show "nat (get_f a s j) < n_of a" "get_f a s j = int (nat (get_f a s j))"
    using assms(4) by simp_all
  then show "(s, nat (get_f a s j)) \<in> edges a"
    using assms(2,3) by (intro edgesI) simp_all
qed

lemma emonde_inf_loop_ok:
  assumes wf: "wf_targets a" and rec: "inf_rec_ok a k"
  shows "inf_inv a m (insert etat G) \<Longrightarrow> etat < n_of a \<Longrightarrow>
    (\<forall>g \<in> insert etat G. (g, etat) \<in> (edges a)\<^sup>*) \<Longrightarrow> card (unseen m) \<le> k \<Longrightarrow>
    set js \<subseteq> {..<na_of a} \<Longrightarrow> (cyc \<longrightarrow> reaches_cycle a etat) \<Longrightarrow>
    seen_targets a m etat cyc js \<Longrightarrow>
    \<exists>cyc' m' c'. emonde_inf_loop k (m, c) etat cyc js = Some (cyc', m', c') \<and>
       inf_inv a m' (insert etat G) \<and> inf_grow a m m' etat \<and>
       (cyc' \<longrightarrow> reaches_cycle a etat) \<and> seen_targets a m' etat cyc' []"
proof (induction js arbitrary: m c cyc)
  case Nil
  then show ?case by (simp add: inf_grow_refl)
next
  case (Cons i js)
  note inv = Cons.prems(1) and etat = Cons.prems(2) and grey = Cons.prems(3)
    and fuel = Cons.prems(4) and cyc = Cons.prems(6) and seen = Cons.prems(7)
  have i: "i < na_of a" and js: "set js \<subseteq> {..<na_of a}" using Cons.prems(5) by simp_all
  have f: "get_f m etat i = get_f a etat i" by (rule inf_inv_get_f [OF inv])
  show ?case
  proof (cases "get_f a etat i = -1")
    case True
    have seen': "seen_targets a m etat cyc js"
      using seen True by (rule seen_targets_tail)
    have "emonde_inf_loop k (m, c) etat cyc (i # js) = emonde_inf_loop k (m, c) etat cyc js"
      using True f by simp
    then show ?thesis
      using Cons.IH [OF inv etat grey fuel js cyc seen', of c] by simp
  next
    case False
    define t where "t = nat (get_f a etat i)"
    note tr = target_in_range [OF wf etat i False, folded t_def]
    have ft: "get_f m etat i = int t" using f tr(2) by simp
    have marks: "get_final m t = 0 \<or> get_final m t = 1 \<or> get_final m t = 2"
      using inv tr(1) by (rule inf_inv_marks)
    show ?thesis
    proof (cases "get_final m t = 0")
      case t0: True
      have tG: "t \<notin> insert etat G"
        using inf_inv_grey [OF inv, of t] t0 by auto
      have greyt: "\<forall>g \<in> insert etat G. (g, t) \<in> (edges a)\<^sup>*"
        using grey tr(3) by (meson rtrancl_into_rtrancl)
      obtain c0 m1 c1 where r1: "emonde_inf_rec k (m, c) t = Some (c0, m1, c1)"
        and inv1: "inf_inv a m1 (insert etat G)" and grow1: "inf_grow a m m1 t"
        and mt: "get_final m1 t = (if c0 then 1 else 2)"
        by (rule inf_rec_okD [OF rec inv tr(1) t0 greyt fuel, of c])
      define cyc2 where "cyc2 = (if c0 then True else cyc)"
      have fuel1: "card (unseen m1) \<le> k"
        using unseen_grow [OF grow1] inf_inv_n [OF inv] inf_inv_n [OF inv1] fuel by simp
      have cyc2: "cyc2 \<longrightarrow> reaches_cycle a etat"
      proof (cases c0)
        case True
        then have "reaches_cycle a t"
          using inf_inv_keep [OF inv1 tr(1) _ tG] mt by simp
        then show ?thesis using tr(3) by (auto intro: reaches_cycle_step)
      next
        case False
        then show ?thesis using cyc by (simp add: cyc2_def)
      qed
      have seen1: "seen_targets a m1 etat cyc2 js"
        unfolding seen_targets_def
      proof (intro allI impI)
        fix j assume j: "j < na_of a" "j \<notin> set js" "get_f a etat j \<noteq> -1"
        show "get_final m1 (nat (get_f a etat j)) \<noteq> 0 \<and>
              (\<not> cyc2 \<longrightarrow> get_final m1 (nat (get_f a etat j)) = 2)"
        proof (cases "j = i")
          case True
          then show ?thesis using mt by (auto simp: t_def cyc2_def)
        next
          case False
          then have ji: "j \<notin> set (i # js)" using j(2) by simp
          have old: "get_final m (nat (get_f a etat j)) \<noteq> 0"
            "\<not> cyc \<longrightarrow> get_final m (nat (get_f a etat j)) = 2"
            using seen_targetsD [OF seen j(1) ji j(3)] by simp_all
          have "nat (get_f a etat j) < n_of a"
            by (rule target_in_range(1) [OF wf etat j(1) j(3)])
          then have "get_final m1 (nat (get_f a etat j)) = get_final m (nat (get_f a etat j))"
            using grow1 old(1) by (simp add: inf_grow_old)
          then show ?thesis using old by (auto simp: cyc2_def)
        qed
      qed
      obtain cyc' m' c' where l: "emonde_inf_loop k (m1, c1) etat cyc2 js = Some (cyc', m', c')"
        and inv': "inf_inv a m' (insert etat G)" and grow': "inf_grow a m1 m' etat"
        and cyc': "cyc' \<longrightarrow> reaches_cycle a etat" and seen': "seen_targets a m' etat cyc' []"
        using Cons.IH [OF inv1 etat grey fuel1 js cyc2 seen1, of c1] by blast
      have "emonde_inf_loop k (m, c) etat cyc (i # js) = Some (cyc', m', c')"
        using False ft t0 r1 l by (simp add: cyc2_def)
      moreover have "inf_grow a m m' etat"
      proof (rule inf_grow_trans [OF _ grow'])
        show "inf_grow a m m1 etat"
          using grow1 tr(3) by (auto intro: inf_grow_root)
      qed simp
      ultimately show ?thesis using inv' cyc' seen' by blast
    next
      case tn0: False
      define cyc1 where "cyc1 = (if get_final m t = 1 then True else cyc)"
      have cyc1: "cyc1 \<longrightarrow> reaches_cycle a etat"
      proof (cases "get_final m t = 1")
        case True
        have "reaches_cycle a etat"
        proof (cases "t \<in> insert etat G")
          case True
          then have "(t, etat) \<in> (edges a)\<^sup>*" using grey by blast
          then show ?thesis using tr(3) by (rule reaches_cycle_back [rotated])
        next
          case False
          then have "reaches_cycle a t"
            using inf_inv_keep [OF inv tr(1) True] by simp
          then show ?thesis using tr(3) by (auto intro: reaches_cycle_step)
        qed
        then show ?thesis by simp
      next
        case False
        then show ?thesis using cyc by (simp add: cyc1_def)
      qed
      have seen1: "seen_targets a m etat cyc1 js"
        unfolding seen_targets_def
      proof (intro allI impI)
        fix j assume j: "j < na_of a" "j \<notin> set js" "get_f a etat j \<noteq> -1"
        show "get_final m (nat (get_f a etat j)) \<noteq> 0 \<and>
              (\<not> cyc1 \<longrightarrow> get_final m (nat (get_f a etat j)) = 2)"
        proof (cases "j = i")
          case True
          then show ?thesis using tn0 marks by (auto simp: t_def cyc1_def)
        next
          case False
          then have ji: "j \<notin> set (i # js)" using j(2) by simp
          show ?thesis
            using seen_targetsD [OF seen j(1) ji j(3)] by (auto simp: cyc1_def)
        qed
      qed
      have "emonde_inf_loop k (m, c) etat cyc (i # js) = emonde_inf_loop k (m, c) etat cyc1 js"
        using False ft tn0 by (simp add: cyc1_def)
      then show ?thesis
        using Cons.IH [OF inv etat grey fuel js cyc1 seen1, of c] by simp
    qed
  qed
qed

lemma inf_inv_enter:
  assumes inv: "inf_inv a m G" and etat: "etat < n_of a" "get_final m etat = 0"
  shows "inf_inv a (set_final m etat 1) (insert etat G)"
proof -
  note n = inf_inv_n [OF inv]
  have notG: "etat \<notin> G" using inf_inv_grey [OF inv, of etat] etat by auto
  show ?thesis
    unfolding inf_inv_def
  proof (intro conjI allI impI ballI)
    show "same_graph a (set_final m etat 1)"
      using inv by (simp add: inf_inv_def same_graph_set_final)
  next
    fix s assume "s < n_of a"
    then show "get_final (set_final m etat 1) s = 0 \<or> get_final (set_final m etat 1) s = 1 \<or>
               get_final (set_final m etat 1) s = 2"
      using inf_inv_marks [OF inv, of s] by (simp add: get_final_set_final)
  next
    fix g assume "g \<in> insert etat G"
    then show "g < n_of a" "get_final (set_final m etat 1) g = 1"
      using inf_inv_grey [OF inv, of g] etat n by (auto simp: get_final_set_final)
  next
    fix s assume "s < n_of a" "get_final (set_final m etat 1) s = 1" "s \<notin> insert etat G"
    then show "reaches_cycle a s"
      using inf_inv_keep [OF inv, of s] by (simp add: get_final_set_final)
  next
    fix s assume "s < n_of a" "get_final (set_final m etat 1) s = 2"
    then show "\<not> reaches_cycle a s"
      using inf_inv_discard [OF inv, of s] by (simp add: get_final_set_final split: if_splits)
  next
    fix s t assume "s < n_of a" "get_final (set_final m etat 1) s \<noteq> 0" "s \<notin> insert etat G"
      "(s, t) \<in> edges a"
    then show "get_final (set_final m etat 1) t \<noteq> 0"
      using inf_inv_closed [OF inv, of s t] by (simp add: get_final_set_final)
  qed
qed

lemma inf_inv_leave:
  assumes wf: "wf_targets a"
    and inv: "inf_inv a m (insert etat G)" and etat: "etat < n_of a" "etat \<notin> G"
    and seen: "seen_targets a m etat cyc []"
    and cyc: "cyc \<longrightarrow> reaches_cycle a etat"
  shows "inf_inv a (if cyc then m else set_final m etat 2) G"
proof -
  note n = inf_inv_n [OF inv]
  have m1: "get_final m etat = 1" using inf_inv_grey [OF inv, of etat] by simp
  have child: "get_final m t \<noteq> 0 \<and> (\<not> cyc \<longrightarrow> get_final m t = 2)" if et: "(etat, t) \<in> edges a" for t
  proof -
    obtain j where j: "j < na_of a" "get_f a etat j = int t"
      using et by (auto simp: edges_def)
    then have "get_f a etat j \<noteq> -1" by simp
    from seen_targetsD [OF seen j(1) _ this] show ?thesis using j(2) by simp
  qed
  have bad: "\<not> reaches_cycle a etat" if "\<not> cyc"
  proof
    assume "reaches_cycle a etat"
    then obtain t where t: "(etat, t) \<in> edges a" "reaches_cycle a t"
      using reaches_cycle_succ by blast
    then have "get_final m t = 2" using child that by blast
    then show False
      using inf_inv_discard [OF inv edges_target(2) [OF wf t(1)]] t(2) by simp
  qed
  let ?m = "if cyc then m else set_final m etat 2"
  have fin: "get_final ?m s = (if s = etat \<and> \<not> cyc then 2 else get_final m s)" if "s < n_of a" for s
    using that etat n by (simp add: get_final_set_final)
  show ?thesis
    unfolding inf_inv_def
  proof (intro conjI allI impI ballI)
    show "same_graph a ?m"
      using inv by (simp add: inf_inv_def same_graph_set_final)
  next
    fix s assume "s < n_of a"
    then show "get_final ?m s = 0 \<or> get_final ?m s = 1 \<or> get_final ?m s = 2"
      using inf_inv_marks [OF inv, of s] fin by simp
  next
    fix g assume g: "g \<in> G"
    then have "g \<noteq> etat" using etat(2) by blast
    with g show "g < n_of a" "get_final ?m g = 1"
      using inf_inv_grey [OF inv, of g] fin [of g] by auto
  next
    fix s assume s: "s < n_of a" "get_final ?m s = 1" "s \<notin> G"
    show "reaches_cycle a s"
    proof (cases "s = etat")
      case True
      then show ?thesis using s fin [of s] cyc by (auto split: if_splits)
    next
      case False
      then show ?thesis using s fin [of s] inf_inv_keep [OF inv, of s] by simp
    qed
  next
    fix s assume s: "s < n_of a" "get_final ?m s = 2"
    show "\<not> reaches_cycle a s"
    proof (cases "s = etat")
      case True
      then show ?thesis using s fin [of s] m1 bad by (auto split: if_splits)
    next
      case False
      then show ?thesis using s fin [of s] inf_inv_discard [OF inv, of s] by simp
    qed
  next
    fix s t assume s: "s < n_of a" "get_final ?m s \<noteq> 0" "s \<notin> G" "(s, t) \<in> edges a"
    have t: "t < n_of a" by (rule edges_target(2) [OF wf s(4)])
    have "get_final m t \<noteq> 0"
    proof (cases "s = etat")
      case True
      then show ?thesis using child s(4) by blast
    next
      case False
      then show ?thesis using s fin [of s] inf_inv_closed [OF inv, of s t] by simp
    qed
    then show "get_final ?m t \<noteq> 0" using fin [OF t] by simp
  qed
qed

lemma emonde_inf_rec_ok:
  assumes wf: "wf_targets a"
  shows "inf_rec_ok a k"
proof (induction k)
  case 0
  show ?case
    unfolding inf_rec_ok_def
  proof (intro allI impI)
    fix m c etat G
    assume inv: "inf_inv a m G" and etat: "etat < n_of a" "get_final m etat = 0"
      and fuel: "card (unseen m) \<le> 0"
    have "etat \<in> unseen m" using etat inf_inv_n [OF inv] by (simp add: unseen_def)
    moreover have "finite (unseen m)" by (simp add: unseen_def)
    ultimately have False using fuel by auto
    then show "\<exists>cyc m' c'. emonde_inf_rec 0 (m, c) etat = Some (cyc, m', c') \<and> inf_inv a m' G \<and>
           inf_grow a m m' etat \<and> get_final m' etat = (if cyc then 1 else 2)" ..
  qed
next
  case (Suc k)
  show ?case
    unfolding inf_rec_ok_def
  proof (intro allI impI)
    fix m c etat G
    assume inv: "inf_inv a m G" and etat: "etat < n_of a" "get_final m etat = 0"
      and grey: "\<forall>g \<in> G. (g, etat) \<in> (edges a)\<^sup>*"
      and fuel: "card (unseen m) \<le> Suc k"
    note n = inf_inv_n [OF inv]
    define m1 where "m1 = set_final m etat 1"
    have notG: "etat \<notin> G" using inf_inv_grey [OF inv, of etat] etat by auto
    have inv1: "inf_inv a m1 (insert etat G)"
      unfolding m1_def by (rule inf_inv_enter [OF inv etat])
    have grey1: "\<forall>g \<in> insert etat G. (g, etat) \<in> (edges a)\<^sup>*" using grey by simp
    have fuel1: "card (unseen m1) \<le> k"
      using unseen_mark [of etat m 1] etat n fuel by (simp add: m1_def)
    have seen1: "seen_targets a m1 etat False [0..<na_of a]"
      by (simp add: seen_targets_def)
    have letters: "set [0..<na_of a] \<subseteq> {..<na_of a}" "False \<longrightarrow> reaches_cycle a etat"
      by auto
    obtain cyc m2 c2 where l: "emonde_inf_loop k (m1, c) etat False [0..<na_of a] = Some (cyc, m2, c2)"
      and inv2: "inf_inv a m2 (insert etat G)" and grow2: "inf_grow a m1 m2 etat"
      and cyc: "cyc \<longrightarrow> reaches_cycle a etat" and seen2: "seen_targets a m2 etat cyc []"
      using emonde_inf_loop_ok [where c = c, OF wf Suc inv1 etat(1) grey1 fuel1 letters seen1] by blast
    define m3 where "m3 = (if cyc then m2 else set_final m2 etat 2)"
    define c3 where "c3 = (if cyc then c2 + 1 else c2)"
    have res: "emonde_inf_rec (Suc k) (m, c) etat = Some (cyc, m3, c3)"
      using l n by (simp add: m1_def m3_def c3_def)
    have inv3: "inf_inv a m3 G"
      unfolding m3_def by (rule inf_inv_leave [OF wf inv2 etat(1) notG seen2 cyc])
    have m2e: "get_final m2 etat = 1" using inf_inv_grey [OF inv2, of etat] by simp
    have fin3: "get_final m3 s = (if s = etat \<and> \<not> cyc then 2 else get_final m2 s)" if "s < n_of a" for s
      using that inf_inv_n [OF inv2] by (simp add: m3_def get_final_set_final)
    have fin1: "get_final m1 s = (if s = etat then 1 else get_final m s)" if "s < n_of a" for s
      using that n by (simp add: m1_def get_final_set_final)
    have grow3: "inf_grow a m m3 etat"
      unfolding inf_grow_def
    proof (intro conjI allI impI)
      fix s assume s: "s < n_of a" "get_final m s \<noteq> 0"
      then have "s \<noteq> etat" using etat by auto
      then show "get_final m3 s = get_final m s"
        using s fin3 [of s] fin1 [of s] inf_grow_old [OF grow2, of s] by simp
    next
      fix s assume s: "s < n_of a" "get_final m s = 0" "get_final m3 s \<noteq> 0"
      show "(etat, s) \<in> (edges a)\<^sup>*"
      proof (cases "s = etat")
        case True
        then show ?thesis by simp
      next
        case False
        then show ?thesis
          using s fin3 [of s] fin1 [of s] inf_grow_new [OF grow2, of s] by simp
      qed
    qed
    have "get_final m3 etat = (if cyc then 1 else 2)"
      using fin3 [OF etat(1)] m2e by simp
    then show "\<exists>cyc m' c'. emonde_inf_rec (Suc k) (m, c) etat = Some (cyc, m', c') \<and>
           inf_inv a m' G \<and> inf_grow a m m' etat \<and> get_final m' etat = (if cyc then 1 else 2)"
      using res inv3 grow3 by blast
  qed
qed

lemma emonde_inf_marks_spec:
  assumes wf: "wf_targets a" and ini: "wf_init a"
  shows "\<exists>m. emonde_inf_marks a = Some m \<and> same_graph a m \<and>
           (\<forall>s < n_of a. (get_final m s AND 1 \<noteq> 0) = (accessible a s \<and> reaches_cycle a s))"
proof -
  define a0 where "a0 = fold (\<lambda>s a. set_final a s 0) [0..<n_of a] a"
  have a0: "n_of a0 = n_of a" "na_of a0 = na_of a" "i_of a0 = i_of a"
    "\<And>x. f_of (e_of a0 ! x) = f_of (e_of a ! x)"
    by (simp_all add: a0_def)
  have z: "get_final a0 s = 0" if "s < n_of a" for s
    using fold_set_final_finals [of "n_of a" a "\<lambda>s v. 0" s] that by (simp add: a0_def)
  have sg: "same_graph a a0" by (simp add: same_graph_def a0)
  have inv0: "inf_inv a a0 {}"
    unfolding inf_inv_def using sg z by simp
  show ?thesis
  proof (cases "i_of a = -1")
    case True
    then have "emonde_inf_marks a = Some a0"
      by (simp add: emonde_inf_marks_def a0_def [symmetric] a0 Let_def)
    then show ?thesis using sg z True by (simp add: accessible_def)
  next
    case False
    define etat where "etat = nat (i_of a)"
    have etat: "etat < n_of a" "i_of a = int etat"
      using ini False by (auto simp: wf_init_def etat_def)
    have "unseen a0 \<subseteq> {..<n_of a}" by (auto simp: unseen_def a0)
    then have fuel: "card (unseen a0) \<le> n_of a"
      by (metis card_lessThan card_mono finite_lessThan)
    obtain cyc m c' where r: "emonde_inf_rec (n_of a) (a0, 0) etat = Some (cyc, m, c')"
      and inv: "inf_inv a m {}" and grow: "inf_grow a a0 m etat"
      and me: "get_final m etat = (if cyc then 1 else 2)"
      by (rule inf_rec_okD [OF emonde_inf_rec_ok [OF wf] inv0 etat(1) z [OF etat(1)] _ fuel]) simp_all
    have res: "emonde_inf_marks a = Some m"
      using False r by (simp add: emonde_inf_marks_def a0_def [symmetric] a0 Let_def etat_def)
    have seen: "get_final m s \<noteq> 0" if "(etat, s) \<in> (edges a)\<^sup>*" for s
      using that
    proof (induction rule: rtrancl_induct)
      case base
      show ?case using me by simp
    next
      case (step s t)
      have "s < n_of a" by (rule rtrancl_edges_target [OF wf step(1) etat(1)])
      then show ?case using inf_inv_closed [OF inv _ step(3) _ step(2)] by simp
    qed
    have "(get_final m s AND 1 \<noteq> 0) = (accessible a s \<and> reaches_cycle a s)" if s: "s < n_of a" for s
    proof
      assume k: "get_final m s AND 1 \<noteq> 0"
      then have m1: "get_final m s = 1" using inf_inv_marks [OF inv s] by auto
      have "reaches_cycle a s" using inf_inv_keep [OF inv s m1] by simp
      moreover have "(etat, s) \<in> (edges a)\<^sup>*"
        using inf_grow_new [OF grow s z [OF s]] m1 by simp
      ultimately show "accessible a s \<and> reaches_cycle a s"
        using False by (simp add: accessible_def etat_def)
    next
      assume k: "accessible a s \<and> reaches_cycle a s"
      then have "get_final m s \<noteq> 0" using seen by (simp add: accessible_def etat_def)
      moreover have "get_final m s \<noteq> 2" using inf_inv_discard [OF inv s] k by blast
      ultimately have "get_final m s = 1" using inf_inv_marks [OF inv s] by blast
      then show "get_final m s AND 1 \<noteq> 0" by simp
    qed
    then show ?thesis using res inv by (simp add: inf_inv_def)
  qed
qed

lemma emonde_inf_result:
  assumes wf: "wf_targets a" and ini: "wf_init a"
  shows "\<exists>l r. emonde_inf_l a = Some l \<and> emonde_inf a = Some (a, r) \<and> length l = n_of a \<and>
     (\<forall>s < n_of a. (l ! s \<noteq> -1) = (accessible a s \<and> infinite_run a s)) \<and>
     n_of r = card {s. s < n_of a \<and> l ! s \<noteq> -1} \<and> na_of r = na_of a \<and>
     i_of r = (if i_of a = -1 then -1 else l ! nat (i_of a)) \<and>
     (\<forall>s < n_of a. l ! s \<noteq> -1 \<longrightarrow>
        l ! s = int (card {t. t < s \<and> l ! t \<noteq> -1}) \<and>
        get_final r (nat (l ! s)) = get_final a s \<and>
        (\<forall>j < na_of a. get_f r (nat (l ! s)) j =
           (if get_f a s j = -1 then -1 else l ! nat (get_f a s j))))"
proof -
  obtain m where marks: "emonde_inf_marks a = Some m" and sg: "same_graph a m"
    and keep: "\<And>s. s < n_of a \<Longrightarrow> (get_final m s AND 1 \<noteq> 0) = (accessible a s \<and> reaches_cycle a s)"
    using emonde_inf_marks_spec [OF wf ini] by blast
  have m: "n_of m = n_of a" "na_of m = na_of a" "i_of m = i_of a"
    "\<And>x. f_of (e_of m ! x) = f_of (e_of a ! x)" "\<And>x j. get_f m x j = get_f a x j"
    using sg by (simp_all add: same_graph_def get_f_def)
  let ?keep = "\<lambda>v::int. v AND 1 \<noteq> 0"
  obtain l cpt where ren: "renumber ?keep m = (l, cpt)" by (cases "renumber ?keep m")
  note rn = renumber_renumbering [OF ren, unfolded m]
  have len: "length l = n_of a" using rn(1) by (simp add: renumbering_def)
  have lk: "(l ! s \<noteq> -1) = ?keep (get_final m s)" if "s < n_of a" for s
    using rn(2) [OF that] by simp
  let ?finaux = "map (get_final a) [0..<n_of a]"
  have fx: "?finaux ! s = get_final a s" if "s < n_of a" for s
    using that by simp
  define r1 where "r1 = prune_rows m l (NewAutomaton cpt (na_of a))"
  define a2 where "a2 = fold (\<lambda>s a. set_final a s (?finaux ! s)) [0..<n_of a] m"
  define r2 where "r2 = fold (\<lambda>s r. if l ! s \<noteq> -1 then set_final r (nat (l ! s)) (?finaux ! s) else r)
                          [0..<n_of a] r1"
  define r where "r = r2\<lparr>i_of := (if i_of a \<noteq> -1 then l ! nat (i_of a) else -1)\<rparr>"
  have a2: "a2 = a"
  proof (rule Automaton_same_rows_eqI)
    fix s assume "s < n_of a2"
    then have s: "s < n_of a" by (simp add: a2_def m)
    show "get_final a2 s = get_final a s"
      using fold_set_final_finals [of "n_of a" m "\<lambda>s v. ?finaux ! s" s] s
      by (simp add: a2_def m)
  qed (simp_all add: a2_def m)
  have res: "emonde_inf a = Some (a, r)"
    unfolding emonde_inf_def Let_def marks
    by (simp add: ren m fold_pair_split r1_def [symmetric]
        a2_def [symmetric] r2_def [symmetric] a2 r_def del: nth_map)
  have lres: "emonde_inf_l a = Some l"
    by (simp add: emonde_inf_l_def marks ren)
  have r1n: "n_of r1 = cpt" "na_of r1 = na_of a"
    "\<forall>x < n_of r1. length (f_of (e_of r1 ! x)) = na_of m"
    by (simp_all add: r1_def m)
  have ren1: "renumbering (n_of a) l (n_of (NewAutomaton cpt (na_of a)))"
    using rn(1) by simp
  have ren2: "renumbering (n_of a) l (n_of r1)"
    using rn(1) by (simp add: r1n)
  have rows0: "\<forall>x < n_of (NewAutomaton cpt (na_of a)). length (f_of (e_of (NewAutomaton cpt (na_of a)) ! x)) = na_of m"
    by (simp add: m)
  have cells: "get_f r (nat (l ! s)) j = (if get_f a s j = -1 then -1 else l ! nat (get_f a s j))"
    if "s < n_of a" "l ! s \<noteq> -1" "j < na_of a" for s j
    using prune_rows_cells [OF ren1 m(1) [symmetric] rows0 that(1,2), of j] that(3)
    by (simp add: r_def r2_def r1_def prune_val_def m)
  have fins: "get_final r (nat (l ! s)) = get_final a s" if "s < n_of a" "l ! s \<noteq> -1" for s
    using fold_kept_finals [OF ren2 that, of "\<lambda>s. ?finaux ! s"] that(1)
    by (simp add: r_def r2_def)
  have sets: "{t. t < s \<and> ?keep (get_final m t)} = {t. t < s \<and> l ! t \<noteq> -1}" if "s \<le> n_of a" for s
    using that lk by auto
  have idx: "l ! s = int (card {t. t < s \<and> l ! t \<noteq> -1})" if "s < n_of a" "l ! s \<noteq> -1" for s
    using rn(2) [OF that(1)] that sets [of s] by (simp add: kept_below_def split: if_splits)
  have cnt: "n_of r = card {s. s < n_of a \<and> l ! s \<noteq> -1}"
    using rn(3) sets [of "n_of a"] by (simp add: r_def r2_def r1n kept_below_def)
  have kp: "(l ! s \<noteq> -1) = (accessible a s \<and> infinite_run a s)" if "s < n_of a" for s
    using lk [OF that] keep [OF that] by (simp add: infinite_run_iff [OF wf])
  have "na_of r = na_of a" "i_of r = (if i_of a = -1 then -1 else l ! nat (i_of a))"
    by (simp_all add: r_def r2_def r1n)
  then show ?thesis
    using lres res len kp cnt idx fins cells by blast
qed

text \<open>
  Claim C5, as stated: \<^verbatim>\<open>emonde_inf\<close> keeps a state if and only if an infinite run starts
  there. In \<open>ex_unreach\<close> the state \<open>1\<close> loops to itself, so an infinite run starts there,
  and it is discarded (\<^verbatim>\<open>l[1] = -1\<close>): the exploration starts from the initial state \<open>0\<close>
  and never meets it.
\<close>

theorem emonde_inf_discards_unreachable_cycle:
  "emonde_inf_l ex_unreach = Some [0, -1] \<and> infinite_run ex_unreach 1"
proof -
  have "emonde_inf_l ex_unreach = Some [0, -1]" by code_simp
  moreover have "(1, 1) \<in> edges ex_unreach"
    by (rule edgesI [of _ _ 1]) (simp_all add: ex_unreach_def n_of_def get_f_def)
  then have "infinite_run ex_unreach 1"
    unfolding infinite_run_def by (intro exI [of _ "\<lambda>k. 1"]) simp
  ultimately show ?thesis by simp
qed

text \<open>
  Claim C5, amended. For an automaton whose targets and initial state are state indices
  or absent, \<^verbatim>\<open>emonde_inf\<close> returns, leaves its argument as it was, and keeps a state
  (\<^verbatim>\<open>l[s] \<noteq> -1\<close>) if and only if the state is accessible from the initial state and an
  infinite run starts there (it lies on a cycle or can reach one). The kept states are
  renumbered in increasing order from \<open>0\<close>; a kept state keeps its finality; each of its
  transitions goes to the new index of its target, and is absent when the target is
  discarded or was absent; the initial state is renumbered likewise.
\<close>

theorem emonde_inf_spec:
  assumes "wf_targets a" "wf_init a"
  shows "\<exists>l r. emonde_inf_l a = Some l \<and> emonde_inf a = Some (a, r) \<and> length l = n_of a \<and>
     (\<forall>s < n_of a. (l ! s \<noteq> -1) = (accessible a s \<and> infinite_run a s)) \<and>
     n_of r = card {s. s < n_of a \<and> l ! s \<noteq> -1} \<and> na_of r = na_of a \<and>
     i_of r = (if i_of a = -1 then -1 else l ! nat (i_of a)) \<and>
     (\<forall>s < n_of a. l ! s \<noteq> -1 \<longrightarrow>
        l ! s = int (card {t. t < s \<and> l ! t \<noteq> -1}) \<and>
        get_final r (nat (l ! s)) = get_final a s \<and>
        (\<forall>j < na_of a. get_f r (nat (l ! s)) j =
           (if get_f a s j = -1 then -1 else l ! nat (get_f a s j))))"
  using assms by (rule emonde_inf_result)

theorem emonde_inf_spec_witness:
  "wf_targets ex_four \<and> wf_init ex_four \<and> emonde_inf_l ex_four = Some [0, -1, 1, -1] \<and>
   accessible ex_four 2 \<and> infinite_run ex_four 2 \<and>
   \<not> (accessible ex_four 1 \<and> infinite_run ex_four 1) \<and>
   (\<exists>r. emonde_inf ex_four = Some (ex_four, r) \<and> get_f r 0 1 = 1 \<and> get_f r 0 0 = -1)"
proof -
  have n: "n_of ex_four = 4" "na_of ex_four = 2"
    by (simp_all add: ex_four_def n_of_def)
  have four: "(4::nat) = Suc (Suc (Suc (Suc 0)))" by simp
  have h1: "wf_targets ex_four"
    unfolding wf_targets_def n four
    by (simp add: ex_four_def get_f_def All_less_Suc numeral_2_eq_2)
  have h2: "wf_init ex_four"
    by (simp add: wf_init_def ex_four_def n_of_def)
  have l: "emonde_inf_l ex_four = Some [0, -1, 1, -1]" by code_simp
  from emonde_inf_spec [OF h1 h2] obtain l' r where
    l': "emonde_inf_l ex_four = Some l'" and r: "emonde_inf ex_four = Some (ex_four, r)"
    and keep: "\<forall>s < n_of ex_four. (l' ! s \<noteq> -1) = (accessible ex_four s \<and> infinite_run ex_four s)"
    and cells: "\<forall>s < n_of ex_four. l' ! s \<noteq> -1 \<longrightarrow>
        l' ! s = int (card {t. t < s \<and> l' ! t \<noteq> -1}) \<and>
        get_final r (nat (l' ! s)) = get_final ex_four s \<and>
        (\<forall>j < na_of ex_four. get_f r (nat (l' ! s)) j =
           (if get_f ex_four s j = -1 then -1 else l' ! nat (get_f ex_four s j)))"
    by blast
  have le: "l' = [0, -1, 1, -1]" using l l' by simp
  have k2: "accessible ex_four 2 \<and> infinite_run ex_four 2"
    using keep [rule_format, of 2] by (simp add: n le)
  have k1: "\<not> (accessible ex_four 1 \<and> infinite_run ex_four 1)"
    using keep [rule_format, of 1] by (simp add: n le)
  have c0: "\<forall>j < na_of ex_four. get_f r (nat (l' ! 0)) j =
           (if get_f ex_four 0 j = -1 then -1 else l' ! nat (get_f ex_four 0 j))"
    using cells [rule_format, of 0] by (simp add: n le)
  have c1: "get_f r 0 1 = 1" "get_f r 0 0 = -1"
    using c0 [rule_format, of 1] c0 [rule_format, of 0]
    by (simp_all add: n le ex_four_def get_f_def)
  show ?thesis
    using h1 h2 l k2 k1 r c1 by simp
qed

subsection \<open>The comparison of languages does not read the finality flags\<close>

lemma flag_equiv_refl [simp]: "flag_equiv a a"
  by (simp add: flag_equiv_def)

lemma flag_equiv_flip: "flag_equiv (flip_final a s) a"
  by (simp add: flag_equiv_def flip_final_def get_final_set_final flag_simps)

lemma flag_equiv_mark:
  assumes "flag_equiv a b"
  shows "flag_equiv (set_final a e (get_final a e OR 2)) (set_final b e (get_final b e OR 2))"
  using assms by (simp add: flag_equiv_def get_final_set_final flag_simps)

lemma flag_equiv_loop2:
  assumes "flag_equiv a1 b1" "flag_equiv a2 b2"
  shows "equalsLangages_loop2 a1 a2 d e1 e2 is = equalsLangages_loop2 b1 b2 d e1 e2 is"
  using assms by (induction "is") (simp_all add: flag_equiv_def)

lemma store_equiv_upd:
  "store_equiv h h' \<Longrightarrow> flag_equiv a b \<Longrightarrow> store_equiv (h(p := a)) (h'(p := b))"
  by (simp add: store_equiv_def)

lemma store_equivD: "store_equiv h h' \<Longrightarrow> flag_equiv (h p) (h' p)"
  by (simp add: store_equiv_def)

lemma res_equiv_simps [simp]:
  "res_equiv None None" "\<not> res_equiv None (Some y)" "\<not> res_equiv (Some x) None"
  "res_equiv (Some x) (Some y) = (fst x = fst y \<and> store_equiv (snd x) (snd y))"
  by (simp_all add: res_equiv_def)

lemma equalsLangages_rec_equiv:
  "\<forall>h'. store_equiv h h' \<longrightarrow>
     res_equiv (equalsLangages_rec k h p1 p2 d12 d21 e1 e2) (equalsLangages_rec k h' p1 p2 d12 d21 e1 e2)"
  "\<forall>h'. store_equiv h h' \<longrightarrow>
     res_equiv (equalsLangages_loop1 k h p1 p2 d12 d21 e1 e2 is)
               (equalsLangages_loop1 k h' p1 p2 d12 d21 e1 e2 is)"
proof (induction k h p1 p2 d12 d21 e1 e2 and k h p1 p2 d12 d21 e1 e2 "is"
    rule: equalsLangages_rec_equalsLangages_loop1.induct)
  case (1 h p1 p2 a1toa2 a2toa1 e1 e2)
  show ?case by simp
next
  case (2 k h p1 p2 a1toa2 a2toa1 e1 e2)
  show ?case
  proof (intro allI impI)
    fix h' assume eq: "store_equiv h h'"
    note e1 = store_equivD [OF eq, of p1] and e2 = store_equivD [OF eq, of p2]
    have t: "(get_final (h p1) e1 AND 2 \<noteq> 0 \<and> get_final (h p2) e2 AND 2 \<noteq> 0) =
             (get_final (h' p1) e1 AND 2 \<noteq> 0 \<and> get_final (h' p2) e2 AND 2 \<noteq> 0)"
      using e1 e2 by (simp add: flag_equiv_def)
    show "res_equiv (equalsLangages_rec (Suc k) h p1 p2 a1toa2 a2toa1 e1 e2)
                    (equalsLangages_rec (Suc k) h' p1 p2 a1toa2 a2toa1 e1 e2)"
    proof (cases "get_final (h p1) e1 AND 2 \<noteq> 0 \<and> get_final (h p2) e2 AND 2 \<noteq> 0")
      case True
      then show ?thesis using t eq by simp
    next
      case False
      define h1 where "h1 = h(p1 := set_final (h p1) e1 (get_final (h p1) e1 OR 2))"
      define h2 where "h2 = h1(p2 := set_final (h1 p2) e2 (get_final (h1 p2) e2 OR 2))"
      define h1' where "h1' = h'(p1 := set_final (h' p1) e1 (get_final (h' p1) e1 OR 2))"
      define h2' where "h2' = h1'(p2 := set_final (h1' p2) e2 (get_final (h1' p2) e2 OR 2))"
      have eq1: "store_equiv h1 h1'"
        unfolding h1_def h1'_def by (intro store_equiv_upd eq flag_equiv_mark e1)
      have eq2: "store_equiv h2 h2'"
        unfolding h2_def h2'_def
        by (intro store_equiv_upd eq1 flag_equiv_mark store_equivD [OF eq1])
      have False': "\<not> (get_final (h' p1) e1 AND 2 \<noteq> 0 \<and> get_final (h' p2) e2 AND 2 \<noteq> 0)"
        using False t by blast
      have na: "na_of (h2 p1) = na_of (h2' p1)"
        using store_equivD [OF eq2, of p1] by (simp add: flag_equiv_def)
      have IH: "res_equiv (equalsLangages_loop1 k h2 p1 p2 a1toa2 a2toa1 e1 e2 [0..<na_of (h2 p1)])
                  (equalsLangages_loop1 k h2' p1 p2 a1toa2 a2toa1 e1 e2 [0..<na_of (h2 p1)])"
        using 2 [OF False h1_def h2_def] eq2 by blast
      have L: "equalsLangages_rec (Suc k) h p1 p2 a1toa2 a2toa1 e1 e2 =
          (case equalsLangages_loop1 k h2 p1 p2 a1toa2 a2toa1 e1 e2 [0..<na_of (h2 p1)] of
              None \<Rightarrow> None
            | Some (res, h3) \<Rightarrow>
                if \<not> res then Some (False, h3)
                else Some (equalsLangages_loop2 (h3 p1) (h3 p2) a2toa1 e1 e2 [0..<na_of (h3 p2)], h3))"
        by (subst equalsLangages_rec.simps) (simp only: False if_False Let_def h1_def h2_def)
      have R: "equalsLangages_rec (Suc k) h' p1 p2 a1toa2 a2toa1 e1 e2 =
          (case equalsLangages_loop1 k h2' p1 p2 a1toa2 a2toa1 e1 e2 [0..<na_of (h2 p1)] of
              None \<Rightarrow> None
            | Some (res, h3) \<Rightarrow>
                if \<not> res then Some (False, h3)
                else Some (equalsLangages_loop2 (h3 p1) (h3 p2) a2toa1 e1 e2 [0..<na_of (h3 p2)], h3))"
        unfolding na
        by (subst equalsLangages_rec.simps) (simp only: False' if_False Let_def h1'_def h2'_def)
      show ?thesis
      proof (cases "equalsLangages_loop1 k h2 p1 p2 a1toa2 a2toa1 e1 e2 [0..<na_of (h2 p1)]")
        case None
        then show ?thesis using IH unfolding L R
          by (cases "equalsLangages_loop1 k h2' p1 p2 a1toa2 a2toa1 e1 e2 [0..<na_of (h2 p1)]") simp_all
      next
        case (Some x)
        obtain y where y: "equalsLangages_loop1 k h2' p1 p2 a1toa2 a2toa1 e1 e2 [0..<na_of (h2 p1)] = Some y"
          using IH Some
          by (cases "equalsLangages_loop1 k h2' p1 p2 a1toa2 a2toa1 e1 e2 [0..<na_of (h2 p1)]") simp_all
        have xy: "fst x = fst y" "store_equiv (snd x) (snd y)"
          using IH Some y by simp_all
        have l2: "equalsLangages_loop2 (snd x p1) (snd x p2) a2toa1 e1 e2 [0..<na_of (snd x p2)] =
                  equalsLangages_loop2 (snd y p1) (snd y p2) a2toa1 e1 e2 [0..<na_of (snd y p2)]"
          using flag_equiv_loop2 [OF store_equivD [OF xy(2), of p1] store_equivD [OF xy(2), of p2]]
            store_equivD [OF xy(2), of p2]
          by (simp add: flag_equiv_def)
        show ?thesis
          unfolding L R Some y using xy l2
          by (cases x; cases y) simp
      qed
    qed
  qed
next
  case (3 k h p1 p2 a1toa2 a2toa1 e1 e2)
  show ?case by simp
next
  case (4 k h p1 p2 a1toa2 a2toa1 e1 e2 i "is")
  show ?case
  proof (intro allI impI)
    fix h' assume eq: "store_equiv h h'"
    note q1 = store_equivD [OF eq, of p1] and q2 = store_equivD [OF eq, of p2]
    have f1: "get_f (h' p1) e1 i = get_f (h p1) e1 i"
      and f2: "get_f (h' p2) e2 (nat (a1toa2 ! i)) = get_f (h p2) e2 (nat (a1toa2 ! i))"
      using q1 q2 by (simp_all add: flag_equiv_def)
    show "res_equiv (equalsLangages_loop1 k h p1 p2 a1toa2 a2toa1 e1 e2 (i # is))
                    (equalsLangages_loop1 k h' p1 p2 a1toa2 a2toa1 e1 e2 (i # is))"
    proof (cases "get_f (h p1) e1 i \<noteq> -1")
      case False
      then show ?thesis using 4(3) eq f1 by simp
    next
      case c1: True
      show ?thesis
      proof (cases "a1toa2 ! i \<noteq> -1")
        case False
        then show ?thesis using c1 eq f1 by simp
      next
        case c2: True
        show ?thesis
        proof (cases "get_f (h p2) e2 (nat (a1toa2 ! i)) = -1")
          case True
          then show ?thesis using c1 c2 eq f1 f2 by simp
        next
          case c3: False
          let ?n1 = "nat (get_f (h p1) e1 i)" and ?n2 = "nat (get_f (h p2) e2 (nat (a1toa2 ! i)))"
          have IH1: "res_equiv (equalsLangages_rec k h p1 p2 a1toa2 a2toa1 ?n1 ?n2)
                               (equalsLangages_rec k h' p1 p2 a1toa2 a2toa1 ?n1 ?n2)"
            using 4(1) [OF c1 c2 c3] eq by blast
          show ?thesis
          proof (cases "equalsLangages_rec k h p1 p2 a1toa2 a2toa1 ?n1 ?n2")
            case None
            then show ?thesis using IH1 c1 c2 c3 f1 f2
              by (cases "equalsLangages_rec k h' p1 p2 a1toa2 a2toa1 ?n1 ?n2") simp_all
          next
            case (Some x)
            obtain y where y: "equalsLangages_rec k h' p1 p2 a1toa2 a2toa1 ?n1 ?n2 = Some y"
              using IH1 Some
              by (cases "equalsLangages_rec k h' p1 p2 a1toa2 a2toa1 ?n1 ?n2") simp_all
            have xy: "store_equiv (snd x) (snd y)" using IH1 Some y by simp
            obtain r g where x: "x = (r, g)" by (cases x)
            obtain r' g' where y': "y = (r', g')" by (cases y)
            have "res_equiv (equalsLangages_loop1 k g p1 p2 a1toa2 a2toa1 e1 e2 is)
                            (equalsLangages_loop1 k g' p1 p2 a1toa2 a2toa1 e1 e2 is)"
              using 4(2) [OF c1 c2 c3 Some [unfolded x] refl] xy x y' by simp
            then show ?thesis
              using c1 c2 c3 f1 f2 Some y x y' by simp
          qed
        qed
      qed
    qed
  qed
qed

lemma equalsLangages_minimized_equiv:
  assumes "store_equiv h h'"
  shows "answer (equalsLangages_minimized h p1 p2 d) = answer (equalsLangages_minimized h' p1 p2 d)"
proof -
  note q1 = store_equivD [OF assms, of p1] and q2 = store_equivD [OF assms, of p2]
  have same: "na_of (h p2) = na_of (h' p2)" "n_of (h p1) = n_of (h' p1)" "n_of (h p2) = n_of (h' p2)"
    "i_of (h p1) = i_of (h' p1)" "i_of (h p2) = i_of (h' p2)"
    using q1 q2 by (simp_all add: flag_equiv_def)
  show ?thesis
  proof (cases "invert_into d [0..<length d] (NewDict (na_of (h p2)))")
    case (Inl err)
    then show ?thesis by (simp add: equalsLangages_minimized_def same [symmetric])
  next
    case (Inr d21)
    let ?k = "n_of (h p1) + n_of (h p2) + 1"
    let ?x = "equalsLangages_rec ?k h p1 p2 d d21 (nat (i_of (h p1))) (nat (i_of (h p2)))"
    let ?y = "equalsLangages_rec ?k h' p1 p2 d d21 (nat (i_of (h p1))) (nat (i_of (h p2)))"
    have r: "res_equiv ?x ?y"
      using equalsLangages_rec_equiv(1) assms by blast
    have "answer (case ?x of None \<Rightarrow> Inl DepthExceeded
           | Some (res, h1) \<Rightarrow>
               let h2 = h1(p1 := restore_finals (h1 p1));
                   h3 = h2(p2 := restore_finals (h2 p2))
               in Inr (res, h3)) =
          answer (case ?y of None \<Rightarrow> Inl DepthExceeded
           | Some (res, h1) \<Rightarrow>
               let h2 = h1(p1 := restore_finals (h1 p1));
                   h3 = h2(p2 := restore_finals (h2 p2))
               in Inr (res, h3))"
      using r by (cases ?x; cases ?y) (auto simp: answer_def Let_def)
    then show ?thesis
      by (simp add: equalsLangages_minimized_def same [symmetric] Inr)
  qed
qed

text \<open>
  Claim C3. With \<^verbatim>\<open>minimized\<close> set, the answer of \<^verbatim>\<open>equalsLangages\<close> (the boolean, or the
  error) is the same after the finality flag of any state \<open>s\<close> of any automaton \<open>p\<close> of
  the store, \<^verbatim>\<open>a1\<close> and \<^verbatim>\<open>a2\<close> among them, has been flipped.
\<close>

theorem equalsLangages_ignores_finality:
  "answer (equalsLangages (h(p := flip_final (h p) s)) p1 p2 d True) =
   answer (equalsLangages h p1 p2 d True)"
proof -
  have "store_equiv (h(p := flip_final (h p) s)) h"
    by (simp add: store_equiv_def flag_equiv_flip)
  then show ?thesis
    by (simp add: equalsLangages_def equalsLangages_minimized_equiv)
qed

theorem equalsLangages_ignores_finality_witness:
  "answer (equalsLangages ((store2 ex_two ex_two)(1 := flip_final (store2 ex_two ex_two 1) 1)) 0 1 [0, 1] True)
     = Inr True"
proof -
  have "answer (equalsLangages (store2 ex_two ex_two) 0 1 [0, 1] True) = Inr True"
    by code_simp
  then show ?thesis
    using equalsLangages_ignores_finality [of "store2 ex_two ex_two" 1 1 0 1 "[0, 1]"] by simp
qed

subsection \<open>The comparison of languages returns\<close>

lemma same_graph_trans: "same_graph a b \<Longrightarrow> same_graph b c \<Longrightarrow> same_graph a c"
  by (simp add: same_graph_def)

lemma same_graph_sym: "same_graph a b \<Longrightarrow> same_graph b a"
  by (simp add: same_graph_def)

lemma or_2_idem: "(x OR 2) OR 2 = (x OR 2 :: int)"
  by (simp add: or.assoc)

lemma marked_from_refl [simp]: "marked_from a a"
  by (simp add: marked_from_def)

lemma marked_from_trans:
  assumes "marked_from a b" "marked_from b c"
  shows "marked_from a c"
proof -
  have n: "n_of b = n_of a" using assms(1) by (simp add: marked_from_def same_graph_def)
  have "get_final c s = get_final a s \<or> get_final c s = get_final a s OR 2" if "s < n_of a" for s
  proof -
    have "get_final b s = get_final a s \<or> get_final b s = get_final a s OR 2"
      using assms(1) that by (simp add: marked_from_def)
    moreover have "get_final c s = get_final b s \<or> get_final c s = get_final b s OR 2"
      using assms(2) that n by (simp add: marked_from_def)
    ultimately show ?thesis by (auto simp: or_2_idem)
  qed
  then show ?thesis
    using assms same_graph_trans by (auto simp: marked_from_def)
qed

lemma marked_from_mark: "marked_from a (set_final a e (get_final a e OR 2))"
  by (simp add: marked_from_def same_graph_set_final get_final_set_final)

lemma store_marked_refl [simp]: "store_marked h h"
  by (simp add: store_marked_def)

lemma store_marked_trans: "store_marked h h1 \<Longrightarrow> store_marked h1 h2 \<Longrightarrow> store_marked h h2"
  unfolding store_marked_def using marked_from_trans by blast

lemma store_marked_upd: "marked_from (h p) m \<Longrightarrow> store_marked h (h(p := m))"
  by (simp add: store_marked_def)

lemma marked_from_unseen2:
  assumes "marked_from a m"
  shows "unseen2 m \<subseteq> unseen2 a"
proof
  fix s assume "s \<in> unseen2 m"
  then have s: "s < n_of a" "get_final m s AND 2 = 0"
    using assms by (simp_all add: unseen2_def marked_from_def same_graph_def)
  then have "get_final m s = get_final a s \<or> get_final m s = get_final a s OR 2"
    using assms by (simp add: marked_from_def)
  then have "get_final a s AND 2 = 0" using s(2) by (auto simp: flag_simps)
  then show "s \<in> unseen2 a" using s(1) by (simp add: unseen2_def)
qed

lemma marked_from_card:
  assumes "marked_from a m"
  shows "card (unseen2 m) \<le> card (unseen2 a)"
  by (rule card_mono [OF _ marked_from_unseen2 [OF assms]]) (simp add: unseen2_def)

lemma marked_from_card_less:
  assumes "marked_from a m" "e \<in> unseen2 a" "e \<notin> unseen2 m"
  shows "card (unseen2 m) < card (unseen2 a)"
proof (rule psubset_card_mono)
  show "finite (unseen2 a)" by (simp add: unseen2_def)
  show "unseen2 m \<subset> unseen2 a" using marked_from_unseen2 [OF assms(1)] assms(2,3) by blast
qed

lemma mark_not_unseen2: "e < n_of a \<Longrightarrow> e \<notin> unseen2 (set_final a e (get_final a e OR 2))"
  by (simp add: unseen2_def get_final_set_final flag_simps)

lemma wf_targets_marked: "marked_from a m \<Longrightarrow> wf_targets a \<Longrightarrow> wf_targets m"
  by (simp add: marked_from_def same_graph_def wf_targets_def get_f_def)

lemma eq_pre_marked:
  assumes "store_marked h h'" "eq_pre h p1 p2 d"
  shows "eq_pre h' p1 p2 d"
proof -
  have "marked_from (h p1) (h' p1)" "marked_from (h p2) (h' p2)"
    using assms(1) by (simp_all add: store_marked_def)
  then show ?thesis
    using assms(2) wf_targets_marked
    by (auto simp: eq_pre_def marked_from_def same_graph_def)
qed

lemma store_marked_n:
  assumes "store_marked h h'"
  shows "n_of (h' p) = n_of (h p)" "na_of (h' p) = na_of (h p)" "i_of (h' p) = i_of (h p)"
    "get_f (h' p) s j = get_f (h p) s j"
  using assms by (simp_all add: store_marked_def marked_from_def same_graph_def get_f_def)

lemma eq_weight_marked:
  assumes "store_marked h h'"
  shows "eq_weight h' p1 p2 \<le> eq_weight h p1 p2"
  unfolding eq_weight_def
  using assms marked_from_card by (simp add: store_marked_def add_mono)

lemma eq_rec_okD:
  assumes "eq_rec_ok k p1 p2 d d'" "eq_pre h p1 p2 d" "e1 < n_of (h p1)" "e2 < n_of (h p2)"
    "eq_weight h p1 p2 < k"
  obtains b h' where "equalsLangages_rec k h p1 p2 d d' e1 e2 = Some (b, h')" "store_marked h h'"
  using assms unfolding eq_rec_ok_def by blast

lemma equalsLangages_loop1_ok:
  assumes rec: "eq_rec_ok k p1 p2 d d'"
  shows "eq_pre h p1 p2 d \<Longrightarrow> e1 < n_of (h p1) \<Longrightarrow> e2 < n_of (h p2) \<Longrightarrow>
     eq_weight h p1 p2 < k \<Longrightarrow> set js \<subseteq> {..<na_of (h p1)} \<Longrightarrow>
     \<exists>b h'. equalsLangages_loop1 k h p1 p2 d d' e1 e2 js = Some (b, h') \<and> store_marked h h'"
proof (induction js arbitrary: h)
  case Nil
  show ?case by auto
next
  case (Cons i js)
  note pre = Cons.prems(1) and e1 = Cons.prems(2) and e2 = Cons.prems(3) and w = Cons.prems(4)
  have i: "i < na_of (h p1)" and js: "set js \<subseteq> {..<na_of (h p1)}" using Cons.prems(5) by simp_all
  show ?case
  proof (cases "get_f (h p1) e1 i \<noteq> -1 \<and> d ! i \<noteq> -1 \<and> get_f (h p2) e2 (nat (d ! i)) \<noteq> -1")
    case False
    then consider "get_f (h p1) e1 i = -1" | "get_f (h p1) e1 i \<noteq> -1" "d ! i = -1"
      | "get_f (h p1) e1 i \<noteq> -1" "d ! i \<noteq> -1" "get_f (h p2) e2 (nat (d ! i)) = -1"
      by blast
    then show ?thesis
    proof cases
      case 1
      then show ?thesis using Cons.IH [OF pre e1 e2 w js] by simp
    next
      case 2
      then show ?thesis by auto
    next
      case 3
      then show ?thesis by auto
    qed
  next
    case True
    let ?t1 = "nat (get_f (h p1) e1 i)" and ?t2 = "nat (get_f (h p2) e2 (nat (d ! i)))"
    have di: "nat (d ! i) < na_of (h p2)"
      using pre i True by (auto simp: eq_pre_def wf_dict_def)
    have t1: "?t1 < n_of (h p1)"
      using target_in_range(1) [of "h p1" e1 i] pre e1 i True by (simp add: eq_pre_def)
    have t2: "?t2 < n_of (h p2)"
      using target_in_range(1) [of "h p2" e2 "nat (d ! i)"] pre e2 di True by (simp add: eq_pre_def)
    obtain b h1 where r: "equalsLangages_rec k h p1 p2 d d' ?t1 ?t2 = Some (b, h1)"
      and m1: "store_marked h h1"
      by (rule eq_rec_okD [OF rec pre t1 t2 w])
    note n1 = store_marked_n [OF m1]
    have w1: "eq_weight h1 p1 p2 < k" using eq_weight_marked [OF m1, of p1 p2] w by simp
    obtain b' h' where l: "equalsLangages_loop1 k h1 p1 p2 d d' e1 e2 js = Some (b', h')"
      and m2: "store_marked h1 h'"
    proof -
      have e1': "e1 < n_of (h1 p1)" and e2': "e2 < n_of (h1 p2)" using e1 e2 n1 by simp_all
      have js': "set js \<subseteq> {..<na_of (h1 p1)}" using js n1 by simp
      show thesis
        using Cons.IH [OF eq_pre_marked [OF m1 pre] e1' e2' w1 js'] that by blast
    qed
    have "equalsLangages_loop1 k h p1 p2 d d' e1 e2 (i # js) = Some (b', h')"
      using True r l by simp
    then show ?thesis using store_marked_trans [OF m1 m2] by blast
  qed
qed

lemma equalsLangages_rec_ok: "eq_rec_ok k p1 p2 d d'"
proof (induction k)
  case 0
  show ?case by (simp add: eq_rec_ok_def)
next
  case (Suc k)
  show ?case
    unfolding eq_rec_ok_def
  proof (intro allI impI)
    fix h e1 e2
    assume pre: "eq_pre h p1 p2 d" and e1: "e1 < n_of (h p1)" and e2: "e2 < n_of (h p2)"
      and w: "eq_weight h p1 p2 < Suc k"
    show "\<exists>b h'. equalsLangages_rec (Suc k) h p1 p2 d d' e1 e2 = Some (b, h') \<and> store_marked h h'"
    proof (cases "get_final (h p1) e1 AND 2 \<noteq> 0 \<and> get_final (h p2) e2 AND 2 \<noteq> 0")
      case True
      then show ?thesis by auto
    next
      case False
      define h1 where "h1 = h(p1 := set_final (h p1) e1 (get_final (h p1) e1 OR 2))"
      define h2 where "h2 = h1(p2 := set_final (h1 p2) e2 (get_final (h1 p2) e2 OR 2))"
      have m1: "store_marked h h1"
        unfolding h1_def by (intro store_marked_upd marked_from_mark)
      have m12: "store_marked h1 h2"
        unfolding h2_def by (intro store_marked_upd marked_from_mark)
      have m2: "store_marked h h2" by (rule store_marked_trans [OF m1 m12])
      note n1 = store_marked_n [OF m1] and n2 = store_marked_n [OF m2]
      have out1: "e1 \<notin> unseen2 (h2 p1)"
      proof -
        have "e1 \<notin> unseen2 (h1 p1)" using e1 by (simp add: h1_def mark_not_unseen2)
        moreover have "marked_from (h1 p1) (h2 p1)" using m12 by (simp add: store_marked_def)
        ultimately show ?thesis using marked_from_unseen2 by blast
      qed
      have out2: "e2 \<notin> unseen2 (h2 p2)"
        using e2 n1 by (simp add: h2_def mark_not_unseen2)
      have mf: "marked_from (h p1) (h2 p1)" "marked_from (h p2) (h2 p2)"
        using m2 by (simp_all add: store_marked_def)
      have "e1 \<in> unseen2 (h p1) \<or> e2 \<in> unseen2 (h p2)"
        using False e1 e2 by (auto simp: unseen2_def)
      then have "eq_weight h2 p1 p2 < eq_weight h p1 p2"
        unfolding eq_weight_def
        using marked_from_card_less [OF mf(1) _ out1] marked_from_card_less [OF mf(2) _ out2]
          marked_from_card [OF mf(1)] marked_from_card [OF mf(2)]
        by auto
      then have w2: "eq_weight h2 p1 p2 < k" using w by simp
      obtain b h3 where l: "equalsLangages_loop1 k h2 p1 p2 d d' e1 e2 [0..<na_of (h2 p1)] = Some (b, h3)"
        and m3: "store_marked h2 h3"
      proof -
        have e1': "e1 < n_of (h2 p1)" and e2': "e2 < n_of (h2 p2)" using e1 e2 n2 by simp_all
        have letters: "set [0..<na_of (h2 p1)] \<subseteq> {..<na_of (h2 p1)}" by auto
        show thesis
          using equalsLangages_loop1_ok [OF Suc eq_pre_marked [OF m2 pre] e1' e2' w2 letters] that
          by blast
      qed
      have "\<exists>b'. equalsLangages_rec (Suc k) h p1 p2 d d' e1 e2 = Some (b', h3)"
        by (subst equalsLangages_rec.simps)
           (simp only: False if_False Let_def h1_def [symmetric] h2_def [symmetric] l, auto)
      then show ?thesis using store_marked_trans [OF m2 m3] by blast
    qed
  qed
qed

lemma equalsLangages_rec_others:
  "equalsLangages_rec k h p1 p2 d d' e1 e2 = Some (b, h') \<Longrightarrow> p \<noteq> p1 \<Longrightarrow> p \<noteq> p2 \<Longrightarrow> h' p = h p"
  "equalsLangages_loop1 k h p1 p2 d d' e1 e2 js = Some (b, h') \<Longrightarrow> p \<noteq> p1 \<Longrightarrow> p \<noteq> p2 \<Longrightarrow> h' p = h p"
proof (induction k h p1 p2 d d' e1 e2 and k h p1 p2 d d' e1 e2 js arbitrary: b h' and b h'
    rule: equalsLangages_rec_equalsLangages_loop1.induct)
  case (1 h p1 p2 a1toa2 a2toa1 e1 e2)
  then show ?case by simp
next
  case (2 k h p1 p2 a1toa2 a2toa1 e1 e2)
  show ?case
  proof (cases "get_final (h p1) e1 AND 2 \<noteq> 0 \<and> get_final (h p2) e2 AND 2 \<noteq> 0")
    case True
    then show ?thesis using 2(2) by simp
  next
    case False
    define h1 where "h1 = h(p1 := set_final (h p1) e1 (get_final (h p1) e1 OR 2))"
    define h2 where "h2 = h1(p2 := set_final (h1 p2) e2 (get_final (h1 p2) e2 OR 2))"
    have eq: "equalsLangages_rec (Suc k) h p1 p2 a1toa2 a2toa1 e1 e2 =
          (case equalsLangages_loop1 k h2 p1 p2 a1toa2 a2toa1 e1 e2 [0..<na_of (h2 p1)] of
              None \<Rightarrow> None
            | Some (res, h3) \<Rightarrow>
                if \<not> res then Some (False, h3)
                else Some (equalsLangages_loop2 (h3 p1) (h3 p2) a2toa1 e1 e2 [0..<na_of (h3 p2)], h3))"
      by (subst equalsLangages_rec.simps) (simp only: False if_False Let_def h1_def h2_def)
    obtain res where l: "equalsLangages_loop1 k h2 p1 p2 a1toa2 a2toa1 e1 e2 [0..<na_of (h2 p1)] = Some (res, h')"
      using 2(2) unfolding eq by (auto split: option.splits prod.splits if_splits)
    have "h' p = h2 p" using 2(1) [OF False h1_def h2_def l 2(3,4)] .
    then show ?thesis using 2(3,4) by (simp add: h2_def h1_def)
  qed
next
  case (3 k h p1 p2 a1toa2 a2toa1 e1 e2)
  then show ?case by simp
next
  case (4 k h p1 p2 a1toa2 a2toa1 e1 e2 i "is")
  show ?case
  proof (cases "get_f (h p1) e1 i \<noteq> -1")
    case False
    then show ?thesis using 4 by simp
  next
    case c1: True
    show ?thesis
    proof (cases "a1toa2 ! i \<noteq> -1")
      case False
      then show ?thesis using 4(4) c1 by simp
    next
      case c2: True
      show ?thesis
      proof (cases "get_f (h p2) e2 (nat (a1toa2 ! i)) = -1")
        case True
        then show ?thesis using 4(4) c1 c2 by simp
      next
        case c3: False
        let ?r = "equalsLangages_rec k h p1 p2 a1toa2 a2toa1
                      (nat (get_f (h p1) e1 i)) (nat (get_f (h p2) e2 (nat (a1toa2 ! i))))"
        obtain res h1 where r: "?r = Some (res, h1)"
          and l: "equalsLangages_loop1 k h1 p1 p2 a1toa2 a2toa1 e1 e2 is = Some (b, h')"
          using 4(4) c1 c2 c3 by (auto split: option.splits prod.splits)
        have "h1 p = h p" using 4(1) [OF c1 c2 c3 r 4(5,6)] .
        moreover have "h' p = h1 p" using 4(2) [OF c1 c2 c3 r refl l 4(5,6)] .
        ultimately show ?thesis by simp
      qed
    qed
  qed
qed

lemma invert_into_identity:
  assumes "k \<le> na" "length dinv = na"
  shows "invert_into (identity_dict na) [0..<k] dinv =
           Inr (map (\<lambda>i. if i < k then int i else dinv ! i) [0..<na])"
  using assms
proof (induction k)
  case 0
  have "map ((!) dinv) [0..<na] = dinv" using 0(2) map_nth [of dinv] by simp
  then show ?case by simp
next
  case (Suc k)
  have k: "k < na" using Suc.prems by simp
  have step: "invert_into d (js @ [i]) dinv0 =
      (case invert_into d js dinv0 of Inl e \<Rightarrow> Inl e
       | Inr dinv1 \<Rightarrow> if 0 \<le> d ! i \<and> d ! i < int (length dinv1) then Inr (dinv1[nat (d ! i) := int i])
                      else Inl OutOfBounds)" for d js i dinv0
    by (induction js arbitrary: dinv0) simp_all
  have "(map (\<lambda>i. if i < k then int i else dinv ! i) [0..<na])[k := int k] =
        map (\<lambda>i. if i < Suc k then int i else dinv ! i) [0..<na]"
    using k by (intro nth_equalityI) (auto simp: nth_list_update less_Suc_eq)
  then show ?case
    using Suc k by (simp add: step identity_dict_def)
qed

lemma invert_identity:
  "invert_into (identity_dict na) [0..<length (identity_dict na)] (NewDict na) = Inr (identity_dict na)"
  using invert_into_identity [of na na "NewDict na"]
  by (simp add: identity_dict_def NewDict_def cong: map_cong)

lemma equalsLangages_loop2_twin:
  assumes "same_graph a1 a2" "set js \<subseteq> {..<na}"
  shows "equalsLangages_loop2 a1 a2 (identity_dict na) e e js = True"
  using assms(2)
proof (induction js)
  case Nil
  show ?case by simp
next
  case (Cons i js)
  have "get_f a2 e i = get_f a1 e i" using assms(1) by (simp add: same_graph_def get_f_def)
  then show ?case using Cons by (simp add: identity_dict_def)
qed

lemma equalsLangages_loop1_twin:
  assumes rec: "eq_rec_ok k p1 p2 (identity_dict na) d'"
  shows "eq_pre h p1 p2 (identity_dict na) \<Longrightarrow> same_graph (h p1) (h p2) \<Longrightarrow> na_of (h p1) = na \<Longrightarrow>
     e < n_of (h p1) \<Longrightarrow> eq_weight h p1 p2 < k \<Longrightarrow> set js \<subseteq> {..<na} \<Longrightarrow>
     \<exists>h'. equalsLangages_loop1 k h p1 p2 (identity_dict na) d' e e js = Some (True, h') \<and>
          store_marked h h'"
proof (induction js arbitrary: h)
  case Nil
  show ?case by simp
next
  case (Cons i js)
  note pre = Cons.prems(1) and sg = Cons.prems(2) and na = Cons.prems(3) and e = Cons.prems(4)
    and w = Cons.prems(5)
  have i: "i < na" and js: "set js \<subseteq> {..<na}" using Cons.prems(6) by simp_all
  have di: "identity_dict na ! i = int i" using i by (simp add: identity_dict_def)
  have f2: "get_f (h p2) e i = get_f (h p1) e i" and n2: "n_of (h p2) = n_of (h p1)"
    using sg by (simp_all add: same_graph_def get_f_def)
  show ?case
  proof (cases "get_f (h p1) e i = -1")
    case True
    then show ?thesis using Cons.IH [OF pre sg na e w js] by simp
  next
    case False
    let ?t = "nat (get_f (h p1) e i)"
    have t: "?t < n_of (h p1)"
      using target_in_range(1) [of "h p1" e i] pre e i na False by (simp add: eq_pre_def)
    obtain b h1 where r: "equalsLangages_rec k h p1 p2 (identity_dict na) d' ?t ?t = Some (b, h1)"
      and m1: "store_marked h h1"
      using eq_rec_okD [OF rec pre t _ w, of ?t] t n2 by auto
    note n1 = store_marked_n [OF m1]
    have sg1: "same_graph (h1 p1) (h1 p2)"
    proof -
      have "same_graph (h p1) (h1 p1)" "same_graph (h p2) (h1 p2)"
        using m1 by (simp_all add: store_marked_def marked_from_def)
      then show ?thesis using sg by (simp add: same_graph_def)
    qed
    have w1: "eq_weight h1 p1 p2 < k" using eq_weight_marked [OF m1, of p1 p2] w by simp
    have e1: "e < n_of (h1 p1)" and na1: "na_of (h1 p1) = na" using e na n1 by simp_all
    obtain h' where l: "equalsLangages_loop1 k h1 p1 p2 (identity_dict na) d' e e js = Some (True, h')"
      and m2: "store_marked h1 h'"
      using Cons.IH [OF eq_pre_marked [OF m1 pre] sg1 na1 e1 w1 js] by blast
    have "equalsLangages_loop1 k h p1 p2 (identity_dict na) d' e e (i # js) = Some (True, h')"
      using False di f2 r l by simp
    then show ?thesis using store_marked_trans [OF m1 m2] by blast
  qed
qed

lemma equalsLangages_rec_twin:
  assumes pre: "eq_pre h p1 p2 (identity_dict na)" and sg: "same_graph (h p1) (h p2)"
    and na: "na_of (h p1) = na" and e: "e < n_of (h p1)" and w: "eq_weight h p1 p2 < k"
  shows "\<exists>h'. equalsLangages_rec k h p1 p2 (identity_dict na) (identity_dict na) e e = Some (True, h') \<and>
          store_marked h h'"
proof (cases k)
  case 0
  then show ?thesis using w by simp
next
  case (Suc k')
  let ?d = "identity_dict na"
  show ?thesis
  proof (cases "get_final (h p1) e AND 2 \<noteq> 0 \<and> get_final (h p2) e AND 2 \<noteq> 0")
    case True
    then show ?thesis by (simp add: Suc)
  next
    case False
    define h1 where "h1 = h(p1 := set_final (h p1) e (get_final (h p1) e OR 2))"
    define h2 where "h2 = h1(p2 := set_final (h1 p2) e (get_final (h1 p2) e OR 2))"
    have m1: "store_marked h h1"
      unfolding h1_def by (intro store_marked_upd marked_from_mark)
    have m12: "store_marked h1 h2"
      unfolding h2_def by (intro store_marked_upd marked_from_mark)
    have m2: "store_marked h h2" by (rule store_marked_trans [OF m1 m12])
    note n2 = store_marked_n [OF m2]
    have sg2: "same_graph (h2 p1) (h2 p2)"
    proof -
      have "same_graph (h p1) (h2 p1)" "same_graph (h p2) (h2 p2)"
        using m2 by (simp_all add: store_marked_def marked_from_def)
      then show ?thesis using sg by (simp add: same_graph_def)
    qed
    have w2: "eq_weight h2 p1 p2 < Suc k'"
      using eq_weight_marked [OF m2, of p1 p2] w Suc by simp
    have e2: "e < n_of (h2 p1)" and na2: "na_of (h2 p1) = na" "na_of (h2 p2) = na"
      using e na n2 sg by (simp_all add: same_graph_def)
    have w2': "eq_weight h2 p1 p2 < k'"
    proof -
      have out1: "e \<notin> unseen2 (h2 p1)"
      proof -
        have "e \<notin> unseen2 (h1 p1)" using e by (simp add: h1_def mark_not_unseen2)
        moreover have "marked_from (h1 p1) (h2 p1)" using m12 by (simp add: store_marked_def)
        ultimately show ?thesis using marked_from_unseen2 by blast
      qed
      have e': "e < n_of (h1 p2)" using e sg store_marked_n [OF m1] by (simp add: same_graph_def)
      have out2: "e \<notin> unseen2 (h2 p2)"
        using e' by (simp add: h2_def mark_not_unseen2)
      have mf: "marked_from (h p1) (h2 p1)" "marked_from (h p2) (h2 p2)"
        using m2 by (simp_all add: store_marked_def)
      have "e \<in> unseen2 (h p1) \<or> e \<in> unseen2 (h p2)"
        using False e sg by (auto simp: unseen2_def same_graph_def)
      then have "eq_weight h2 p1 p2 < eq_weight h p1 p2"
        unfolding eq_weight_def
        using marked_from_card_less [OF mf(1) _ out1] marked_from_card_less [OF mf(2) _ out2]
          marked_from_card [OF mf(1)] marked_from_card [OF mf(2)]
        by auto
      then show ?thesis using w Suc by simp
    qed
    have letters: "set [0..<na] \<subseteq> {..<na}" by auto
    obtain h3 where l: "equalsLangages_loop1 k' h2 p1 p2 ?d ?d e e [0..<na] = Some (True, h3)"
      and m3: "store_marked h2 h3"
      using equalsLangages_loop1_twin [OF equalsLangages_rec_ok eq_pre_marked [OF m2 pre] sg2 na2(1) e2 w2' letters]
      by blast
    have sg3: "same_graph (h3 p1) (h3 p2)"
    proof -
      have "same_graph (h2 p1) (h3 p1)" "same_graph (h2 p2) (h3 p2)"
        using m3 by (simp_all add: store_marked_def marked_from_def)
      then show ?thesis using sg2 by (simp add: same_graph_def)
    qed
    have na3: "na_of (h3 p2) = na" using store_marked_n [OF m3] na2 by simp
    have l2: "equalsLangages_loop2 (h3 p1) (h3 p2) ?d e e [0..<na] = True"
      by (rule equalsLangages_loop2_twin [OF sg3 letters])
    have "equalsLangages_rec (Suc k') h p1 p2 ?d ?d e e = Some (True, h3)"
      by (subst equalsLangages_rec.simps)
         (simp only: False if_False Let_def h1_def [symmetric] h2_def [symmetric] na2 l, simp add: na3 l2)
    then show ?thesis using store_marked_trans [OF m2 m3] Suc by blast
  qed
qed

lemma restore_marked:
  assumes "marked_from a m" "wf_finals a"
  shows "restore_finals m = a"
proof (rule Automaton_same_rows_eqI)
  have sg: "same_graph a m" using assms(1) by (simp add: marked_from_def)
  then show "n_of (restore_finals m) = n_of a" "na_of (restore_finals m) = na_of a"
    "i_of (restore_finals m) = i_of a" "\<And>s. f_of (e_of (restore_finals m) ! s) = f_of (e_of a ! s)"
    by (simp_all add: same_graph_def)
  fix s assume "s < n_of (restore_finals m)"
  then have s: "s < n_of a" "s < n_of m" using sg by (simp_all add: same_graph_def)
  have v: "get_final a s = 0 \<or> get_final a s = 1" using assms(2) s by (simp add: wf_finals_def)
  have "get_final m s = get_final a s \<or> get_final m s = get_final a s OR 2"
    using assms(1) s by (simp add: marked_from_def)
  then have "get_final m s AND 1 = get_final a s" using v by (auto simp: flag_simps)
  then show "get_final (restore_finals m) s = get_final a s"
    using s by (simp add: restore_finals_final)
qed

lemma restore_wf_finals: "wf_finals a \<Longrightarrow> restore_finals a = a"
  by (rule restore_marked) simp_all

lemma equalsLangages_minimized_frame:
  assumes "equalsLangages_minimized h p1 p2 d = Inr (b, h')"
    and pre: "eq_pre h p1 p2 d" and fin: "wf_finals (h p1)" "wf_finals (h p2)"
    and ini: "wf_init (h p1)" "i_of (h p1) \<noteq> -1" "wf_init (h p2)" "i_of (h p2) \<noteq> -1"
  shows "h' = h"
proof -
  obtain d' where d': "invert_into d [0..<length d] (NewDict (na_of (h p2))) = Inr d'"
    using assms(1) by (auto simp: equalsLangages_minimized_def split: sum.splits)
  let ?k = "n_of (h p1) + n_of (h p2) + 1"
  let ?e1 = "nat (i_of (h p1))" and ?e2 = "nat (i_of (h p2))"
  have e: "?e1 < n_of (h p1)" "?e2 < n_of (h p2)"
    using ini by (auto simp: wf_init_def)
  have "card (unseen2 (h p1)) \<le> n_of (h p1)" "card (unseen2 (h p2)) \<le> n_of (h p2)"
    using card_mono [of "{..<n_of (h p1)}" "unseen2 (h p1)"] card_mono [of "{..<n_of (h p2)}" "unseen2 (h p2)"]
    by (auto simp: unseen2_def)
  then have w: "eq_weight h p1 p2 < ?k" by (simp add: eq_weight_def)
  obtain b1 h1 where r: "equalsLangages_rec ?k h p1 p2 d d' ?e1 ?e2 = Some (b1, h1)"
    and m1: "store_marked h h1"
    by (rule eq_rec_okD [OF equalsLangages_rec_ok pre e w])
  define h2 where "h2 = h1(p1 := restore_finals (h1 p1))"
  define h3 where "h3 = h2(p2 := restore_finals (h2 p2))"
  have res: "h' = h3"
    using assms(1)
    unfolding equalsLangages_minimized_def d' sum.case r option.case prod.case Let_def h2_def h3_def
    by simp
  have mf: "marked_from (h p) (h1 p)" for p using m1 by (simp add: store_marked_def)
  have h2p1: "h2 p1 = h p1" by (simp add: h2_def restore_marked [OF mf fin(1)])
  have "h3 p = h p" for p
  proof (cases "p = p2")
    case True
    show ?thesis
    proof (cases "p1 = p2")
      case True
      then show ?thesis using \<open>p = p2\<close> h2p1 fin by (simp add: h3_def restore_wf_finals)
    next
      case False
      then show ?thesis using \<open>p = p2\<close> by (simp add: h3_def h2_def restore_marked [OF mf fin(2)])
    qed
  next
    case False
    show ?thesis
    proof (cases "p = p1")
      case True
      then show ?thesis using False h2p1 by (simp add: h3_def)
    next
      case False
      then show ?thesis
        using \<open>p \<noteq> p2\<close> equalsLangages_rec_others(1) [OF r] by (simp add: h3_def h2_def)
    qed
  qed
  then show ?thesis using res by auto
qed

lemma equalsLangages_minimized_twin:
  assumes tg: "wf_targets (h p1)" "wf_targets (h p2)" and sg: "same_graph (h p1) (h p2)"
    and fin: "wf_finals (h p1)" "wf_finals (h p2)"
    and ini: "wf_init (h p1)" "i_of (h p1) \<noteq> -1"
  shows "equalsLangages_minimized h p1 p2 (identity_dict (na_of (h p1))) = Inr (True, h)"
proof -
  let ?na = "na_of (h p1)"
  let ?d = "identity_dict ?na"
  have same: "na_of (h p2) = ?na" "n_of (h p2) = n_of (h p1)" "i_of (h p2) = i_of (h p1)"
    using sg by (simp_all add: same_graph_def)
  have pre: "eq_pre h p1 p2 ?d"
    using tg by (simp add: eq_pre_def wf_dict_def same identity_dict_def)
  have d': "invert_into ?d [0..<length ?d] (NewDict (na_of (h p2))) = Inr ?d"
    unfolding same by (rule invert_identity)
  let ?k = "n_of (h p1) + n_of (h p2) + 1"
  let ?e = "nat (i_of (h p1))"
  have e: "?e < n_of (h p1)" using ini by (auto simp: wf_init_def)
  have "card (unseen2 (h p1)) \<le> n_of (h p1)" "card (unseen2 (h p2)) \<le> n_of (h p2)"
    using card_mono [of "{..<n_of (h p1)}" "unseen2 (h p1)"] card_mono [of "{..<n_of (h p2)}" "unseen2 (h p2)"]
    by (auto simp: unseen2_def)
  then have w: "eq_weight h p1 p2 < ?k" by (simp add: eq_weight_def)
  obtain h1 where r: "equalsLangages_rec ?k h p1 p2 ?d ?d ?e ?e = Some (True, h1)"
    using equalsLangages_rec_twin [OF pre sg refl e w] by blast
  have "\<exists>h'. equalsLangages_minimized h p1 p2 ?d = Inr (True, h')"
    unfolding equalsLangages_minimized_def same invert_identity sum.case r [unfolded same]
      option.case prod.case Let_def
    by simp
  then obtain h' where res: "equalsLangages_minimized h p1 p2 ?d = Inr (True, h')" ..
  have ini2: "wf_init (h p2)" "i_of (h p2) \<noteq> -1"
    using ini by (simp_all add: wf_init_def same)
  show ?thesis
    using equalsLangages_minimized_frame [OF res pre fin ini ini2] res by simp
qed

subsection \<open>Marks of the traversals\<close>

lemma grown_refl [simp]: "grown a a"
  by (simp add: grown_def)

lemma grown_trans:
  assumes "grown a b" "grown b c"
  shows "grown a c"
proof -
  have n: "n_of b = n_of a" using assms(1) by (simp add: grown_def same_graph_def)
  show ?thesis
    using assms same_graph_trans [of a b c] by (auto simp: grown_def n)
qed

lemma grown_same: "grown a m \<Longrightarrow> n_of m = n_of a \<and> na_of m = na_of a \<and> i_of m = i_of a"
  by (simp add: grown_def same_graph_def)


lemma grown_wf_targets: "grown a m \<Longrightarrow> wf_targets a \<Longrightarrow> wf_targets m"
  by (simp add: grown_def same_graph_def wf_targets_def get_f_def)

lemma grown_mark2: "grown a (set_final a e (get_final a e OR 2))"
  by (simp add: grown_def same_graph_set_final get_final_set_final flag_simps)

lemma grown_mark4: "grown a (set_final a e (get_final a e OR 4))"
  by (simp add: grown_def same_graph_set_final get_final_set_final flag_simps)

lemma grown_mark_component: "grown a (mark_component members a)"
proof (induction members arbitrary: a)
  case Nil
  show ?case by (simp add: mark_component_def)
next
  case (Cons q qs)
  have "grown (set_final a (nat q) (get_final a (nat q) OR 4)) (mark_component qs (set_final a (nat q) (get_final a (nat q) OR 4)))"
    by (rule Cons)
  then show ?case
    using grown_trans [OF grown_mark4 [of a "nat q"]] by (simp add: mark_component_def)
qed

lemma grown_unseen2:
  assumes "grown a m"
  shows "unseen2 m \<subseteq> unseen2 a"
  using assms by (auto simp: unseen2_def grown_def same_graph_def)

lemma grown_card: "grown a m \<Longrightarrow> card (unseen2 m) \<le> card (unseen2 a)"
  by (rule card_mono [OF _ grown_unseen2]) (simp_all add: unseen2_def)

lemma mark2_card:
  assumes "e \<in> unseen2 a"
  shows "card (unseen2 (set_final a e (get_final a e OR 2))) < card (unseen2 a)"
proof (rule psubset_card_mono)
  show "finite (unseen2 a)" by (simp add: unseen2_def)
  have "e \<notin> unseen2 (set_final a e (get_final a e OR 2))"
    using assms by (simp add: unseen2_def get_final_set_final flag_simps)
  then show "unseen2 (set_final a e (get_final a e OR 2)) \<subset> unseen2 a"
    using grown_unseen2 [OF grown_mark2 [of a e]] assms by blast
qed




lemma target_unseen2:
  assumes "wf_targets a" "s < n_of a" "j < na_of a" "get_f a s j \<noteq> -1"
    "get_final a (nat (get_f a s j)) AND 2 = 0"
  shows "nat (get_f a s j) \<in> unseen2 a"
  using target_in_range(1) [OF assms(1-4)] assms(5) by (simp add: unseen2_def)

subsection \<open>The exploration of \<^verbatim>\<open>emondeI\<close>\<close>



subsection \<open>The exploration of \<^verbatim>\<open>emptyLangage\<close>\<close>




subsection \<open>The exploration of \<^verbatim>\<open>emonde\<close>\<close>

lemma emonde_loop_ok:
  assumes rec: "emonde_rec_ok k l idt"
  shows "wf_targets a \<Longrightarrow> etat < n_of a \<Longrightarrow> card (unseen2 a) \<le> k \<Longrightarrow> set js \<subseteq> {..<na_of a} \<Longrightarrow>
     \<exists>a'. emonde_loop k a l idt etat js = Some a' \<and> grown a a'"
proof (induction js arbitrary: a)
  case Nil
  show ?case by simp
next
  case (Cons i js)
  note wf = Cons.prems(1) and etat = Cons.prems(2) and fuel = Cons.prems(3)
  have i: "i < na_of a" and js: "set js \<subseteq> {..<na_of a}" using Cons.prems(4) by simp_all
  show ?case
  proof (cases "get_f a etat i = -1")
    case True
    then have "emonde_loop k a l idt etat (i # js) = emonde_loop k a l idt etat js" by (simp add: Let_def)
    then show ?thesis using Cons.IH [OF wf etat fuel js] by simp
  next
    case False
    let ?t = "nat (get_f a etat i)"
    let ?r = "if get_final a ?t AND 2 = 0 then emonde_rec k a l idt ?t else Some a"
    have "\<exists>a1. ?r = Some a1 \<and> grown a a1"
    proof (cases "get_final a ?t AND 2 = 0")
      case True
      have t: "?t \<in> unseen2 a" using target_unseen2 [OF wf etat i False True] .
      show ?thesis using rec wf t fuel True unfolding emonde_rec_ok_def by simp
    next
      case False
      then show ?thesis by simp
    qed
    then obtain a1 where r: "?r = Some a1" and g1: "grown a a1" by blast
    define a2 where "a2 = (if get_final a1 ?t AND 4 \<noteq> 0 \<and> get_final a1 etat AND 4 = 0
                           then mark_component (dict_elems (idt ! nat (l ! etat))) a1 else a1)"
    have g12: "grown a1 a2" by (simp add: a2_def grown_mark_component)
    have g2: "grown a a2" by (rule grown_trans [OF g1 g12])
    note s2 = grown_same [OF g2]
    have fuel2: "card (unseen2 a2) \<le> k" using grown_card [OF g2] fuel by simp
    have js2: "set js \<subseteq> {..<na_of a2}" and etat2: "etat < n_of a2" using js etat s2 by simp_all
    obtain a' where lp: "emonde_loop k a2 l idt etat js = Some a'" and g3: "grown a2 a'"
      using Cons.IH [OF grown_wf_targets [OF g2 wf] etat2 fuel2 js2] by blast
    have "emonde_loop k a l idt etat (i # js) = Some a'"
      using False r lp by (auto simp: Let_def a2_def)
    then show ?thesis using grown_trans [OF g2 g3] by blast
  qed
qed

lemma emonde_rec_total: "emonde_rec_ok k l idt"
proof (induction k)
  case 0
  show ?case
    unfolding emonde_rec_ok_def
  proof (intro allI impI)
    fix a etat assume "etat \<in> unseen2 a" "card (unseen2 a) \<le> 0"
    moreover have "finite (unseen2 a)" by (simp add: unseen2_def)
    ultimately have False by auto
    then show "\<exists>a'. emonde_rec 0 a l idt etat = Some a' \<and> grown a a'" ..
  qed
next
  case (Suc k)
  show ?case
    unfolding emonde_rec_ok_def
  proof (intro allI impI)
    fix a etat
    assume wf: "wf_targets a" and etat: "etat \<in> unseen2 a" and fuel: "card (unseen2 a) \<le> Suc k"
    let ?a1 = "set_final a etat (get_final a etat OR 2)"
    have g1: "grown a ?a1" by (rule grown_mark2)
    have fuel1: "card (unseen2 ?a1) \<le> k" using mark2_card [OF etat] fuel by simp
    have etat1: "etat < n_of ?a1" using etat by (simp add: unseen2_def)
    have letters: "set [0..<na_of a] \<subseteq> {..<na_of ?a1}" by auto
    obtain a' where lp: "emonde_loop k ?a1 l idt etat [0..<na_of a] = Some a'" and g2: "grown ?a1 a'"
      using emonde_loop_ok [OF Suc grown_wf_targets [OF g1 wf] etat1 fuel1 letters] by blast
    show "\<exists>a'. emonde_rec (Suc k) a l idt etat = Some a' \<and> grown a a'"
      using lp grown_trans [OF g1 g2] by simp
  qed
qed

subsection \<open>The stack of \<^verbatim>\<open>StronglyConnectedComponents\<close>\<close>




























subsection \<open>The states marked by \<^verbatim>\<open>emondeI\<close>\<close>









subsection \<open>The automaton after a call\<close>









subsection \<open>The arguments after a call\<close>

lemma ex_two_wf: "wf_targets ex_two" "wf_init ex_two" "wf_finals ex_two" "i_of ex_two \<noteq> -1"
  by (simp_all add: wf_targets_def wf_init_def wf_finals_def ex_two_def n_of_def get_f_def
      get_final_def All_less_Suc numeral_2_eq_2)





subsection \<open>The arrays of the minimisation\<close>

lemma perm_okD:
  assumes "perm_ok N s"
  shows "length (partition_of s) = N" "length (partitioni_of s) = N"
    "p < N \<Longrightarrow> partition_of s ! p < N" "p < N \<Longrightarrow> partitioni_of s ! (partition_of s ! p) = p"
    "i < N \<Longrightarrow> partitioni_of s ! i < N" "i < N \<Longrightarrow> partition_of s ! (partitioni_of s ! i) = i"
  using assms by (simp_all add: perm_ok_def)

lemma perm_ok_inj:
  assumes "perm_ok N s" "p < N" "q < N" "partition_of s ! p = partition_of s ! q"
  shows "p = q"
proof -
  have "partitioni_of s ! (partition_of s ! p) = partitioni_of s ! (partition_of s ! q)"
    by (simp only: assms(4))
  then show ?thesis
    by (simp only: perm_okD(4) [OF assms(1,2)] perm_okD(4) [OF assms(1,3)])
qed

lemma swap_fields [simp]:
  "class_of (swap i j s) = class_of s" "class_indices_of (swap i j s) = class_indices_of s"
  "nclass_of (swap i j s) = nclass_of s" "L_of (swap i j s) = L_of s" "nL_of (swap i j s) = nL_of s"
  "pt_visited_class_of (swap i j s) = pt_visited_class_of s"
  "visited_class_of (swap i j s) = visited_class_of s" "etats_of (swap i j s) = etats_of s"
  by (simp_all add: swap_def Let_def)

lemma swap_partition:
  assumes "perm_ok N s" "i < N" "j < N"
  shows "partition_of (swap i j s) ! p =
     (if p = i then partition_of s ! j else if p = j then partition_of s ! i else partition_of s ! p)"
proof (cases "i = j")
  case True
  then show ?thesis by (simp add: swap_def)
next
  case False
  have "partition_of (swap i j s) = (partition_of s)[i := partition_of s ! j, j := partition_of s ! i]"
    using False by (simp add: swap_def Let_def)
  then show ?thesis
    using False perm_okD(1) [OF assms(1)] assms(2,3) by (simp add: nth_list_update)
qed

lemma swap_partitioni:
  assumes "perm_ok N s" "i < N" "j < N"
  shows "partitioni_of (swap i j s) ! x =
     (if x = partition_of s ! i then j else if x = partition_of s ! j then i else partitioni_of s ! x)"
proof (cases "i = j")
  case True
  then show ?thesis using perm_okD(4) [OF assms(1,2)] by (simp add: swap_def)
next
  case False
  then have ne: "partition_of s ! i \<noteq> partition_of s ! j"
    using perm_ok_inj [OF assms] by blast
  have lt: "partition_of s ! i < N" "partition_of s ! j < N"
    using perm_okD(3) [OF assms(1)] assms(2,3) by simp_all
  have "(partition_of s)[i := partition_of s ! j, j := partition_of s ! i] ! i = partition_of s ! j"
    using False perm_okD(1) [OF assms(1)] assms(2) by simp
  then have "partitioni_of (swap i j s) =
        (partitioni_of s)[partition_of s ! i := j, partition_of s ! j := i]"
    using False by (simp add: swap_def Let_def)
  then show ?thesis
    using ne lt perm_okD(2) [OF assms(1)] by (simp add: nth_list_update)
qed

lemma swap_perm_ok:
  assumes ok: "perm_ok N s" and i: "i < N" and j: "j < N"
  shows "perm_ok N (swap i j s)"
proof -
  note pt = swap_partition [OF ok i j] and pi = swap_partitioni [OF ok i j]
  note inj = perm_ok_inj [OF ok]
  have len: "length (partition_of (swap i j s)) = N" "length (partitioni_of (swap i j s)) = N"
    using perm_okD(1,2) [OF ok] by (simp_all add: swap_def Let_def)
  have a: "partition_of (swap i j s) ! p < N \<and>
           partitioni_of (swap i j s) ! (partition_of (swap i j s) ! p) = p" if p: "p < N" for p
  proof -
    consider "p = i" | "p \<noteq> i" "p = j" | "p \<noteq> i" "p \<noteq> j" by blast
    then show ?thesis
    proof cases
      case 1
      then show ?thesis using perm_okD(3) [OF ok j] inj [OF j i] by (auto simp: pt pi)
    next
      case 2
      then show ?thesis using perm_okD(3) [OF ok i] inj [OF i j] by (auto simp: pt pi)
    next
      case 3
      have "partition_of s ! p \<noteq> partition_of s ! i" "partition_of s ! p \<noteq> partition_of s ! j"
        using inj [OF p i] inj [OF p j] 3 by blast+
      then show ?thesis using 3 perm_okD(3,4) [OF ok p] by (simp add: pt pi)
    qed
  qed
  have b: "partitioni_of (swap i j s) ! x < N \<and>
           partition_of (swap i j s) ! (partitioni_of (swap i j s) ! x) = x" if x: "x < N" for x
  proof -
    consider "x = partition_of s ! i" | "x \<noteq> partition_of s ! i" "x = partition_of s ! j"
      | "x \<noteq> partition_of s ! i" "x \<noteq> partition_of s ! j" by blast
    then show ?thesis
    proof cases
      case 1
      then show ?thesis using j inj [OF j i] by (auto simp: pt pi)
    next
      case 2
      then show ?thesis using i inj [OF i j] by (auto simp: pt pi)
    next
      case 3
      have "partitioni_of s ! x \<noteq> i" "partitioni_of s ! x \<noteq> j"
        using perm_okD(6) [OF ok x] 3 by auto
      then show ?thesis using 3 perm_okD(5,6) [OF ok x] by (simp add: pt pi)
    qed
  qed
  show ?thesis unfolding perm_ok_def using len a b by blast
qed

lemma classes_okD:
  assumes "classes_ok N s"
  shows "length (class_of s) = N" "length (class_indices_of s) = N" "nclass_of s \<le> N"
    "p < N \<Longrightarrow> class_of s ! p < nclass_of s"
    "p < N \<Longrightarrow> lo s (class_of s ! p) \<le> partition_of s ! p"
    "p < N \<Longrightarrow> partition_of s ! p < hi s (class_of s ! p)"
    "c < nclass_of s \<Longrightarrow> lo s c \<le> i \<Longrightarrow> i < hi s c \<Longrightarrow> i < N"
    "c < nclass_of s \<Longrightarrow> lo s c \<le> i \<Longrightarrow> i < hi s c \<Longrightarrow> class_of s ! (partitioni_of s ! i) = c"
  using assms by (simp_all add: classes_ok_def)

lemma class_lt:
  assumes "classes_ok N s" "p < N"
  shows "class_of s ! p < N"
  using classes_okD(4) [OF assms] classes_okD(3) [OF assms(1)] by simp

lemma marks_okD:
  assumes "marks_ok N s V"
  shows "length (pt_visited_class_of s) = N"
    "c < N \<Longrightarrow> c \<notin> V \<Longrightarrow> pt_visited_class_of s ! c = 0"
    "c \<in> V \<Longrightarrow> c < nclass_of s" "c \<in> V \<Longrightarrow> lo s c < pt_visited_class_of s ! c"
    "c \<in> V \<Longrightarrow> pt_visited_class_of s ! c \<le> hi s c"
  using assms by (simp_all add: marks_ok_def)

lemma hinvD:
  assumes "hinv N s V"
  shows "perm_ok N s" "classes_ok N s" "marks_ok N s V" "worklist_ok N s"
    "length (visited_class_of s) = N" "length (etats_of s) = N"
  using assms by (simp_all add: hinv_def)

lemma same_classes_refl [simp]: "same_classes s s"
  by (simp add: same_classes_def)

lemma same_classes_trans: "same_classes s s1 \<Longrightarrow> same_classes s1 s2 \<Longrightarrow> same_classes s s2"
  by (simp add: same_classes_def)

lemma same_classes_lo_hi: "same_classes s s' \<Longrightarrow> lo s' c = lo s c \<and> hi s' c = hi s c"
  by (simp add: same_classes_def lo_def hi_def)

lemma classes_ok_cong:
  assumes "partition_of s' = partition_of s" "partitioni_of s' = partitioni_of s"
    "class_of s' = class_of s" "class_indices_of s' = class_indices_of s" "nclass_of s' = nclass_of s"
  shows "classes_ok N s' = classes_ok N s"
  by (simp add: classes_ok_def lo_def hi_def assms)

lemma perm_ok_cong:
  assumes "partition_of s' = partition_of s" "partitioni_of s' = partitioni_of s"
  shows "perm_ok N s' = perm_ok N s"
  by (simp add: perm_ok_def assms)

lemma worklist_ok_cong:
  assumes "L_of s' = L_of s" "nL_of s' = nL_of s" "nclass_of s' = nclass_of s"
  shows "worklist_ok N s' = worklist_ok N s"
  by (simp add: worklist_ok_def assms)

lemma lo_hi_cong:
  assumes "class_indices_of s' = class_indices_of s"
  shows "lo s' c = lo s c" "hi s' c = hi s c"
  by (simp_all add: lo_def hi_def assms)

text \<open>Exchanging the indices of two states of the same class.\<close>

lemma swap_classes_ok:
  assumes pm: "perm_ok N s" and ok: "classes_ok N s" and p: "p < N" and q: "q < N"
    and same: "class_of s ! q = class_of s ! p"
  shows "classes_ok N (swap q p s)"
proof -
  note pt = swap_partition [OF pm q p] and pi = swap_partitioni [OF pm q p]
  have lh: "lo (swap q p s) c = lo s c" "hi (swap q p s) c = hi s c" for c
    by (simp_all add: lo_def hi_def)
  have a: "class_of s ! x < nclass_of s \<and> lo s (class_of s ! x) \<le> partition_of (swap q p s) ! x \<and>
           partition_of (swap q p s) ! x < hi s (class_of s ! x)" if x: "x < N" for x
    using classes_okD(4-6) [OF ok x] classes_okD(5,6) [OF ok p] classes_okD(5,6) [OF ok q] same
    unfolding pt by simp
  have b: "i < N \<and> class_of s ! (partitioni_of (swap q p s) ! i) = c"
    if c: "c < nclass_of s" and i: "lo s c \<le> i" "i < hi s c" for c i
  proof -
    note old = classes_okD(7,8) [OF ok c i]
    consider "i = partition_of s ! q" | "i \<noteq> partition_of s ! q" "i = partition_of s ! p"
      | "i \<noteq> partition_of s ! q" "i \<noteq> partition_of s ! p" by blast
    then show ?thesis
    proof cases
      case 1
      then have "class_of s ! q = c" using old(2) perm_okD(4) [OF pm q] by simp
      then show ?thesis using 1 old(1) same by (simp add: pi)
    next
      case 2
      then have "class_of s ! p = c" using old(2) perm_okD(4) [OF pm p] by simp
      then show ?thesis using 2 old(1) same by (simp add: pi)
    next
      case 3
      then show ?thesis using old by (simp add: pi)
    qed
  qed
  show ?thesis
    unfolding classes_ok_def lh swap_fields
    using classes_okD(1-3) [OF ok] a b by blast
qed

lemma split_parent_phase1:
  assumes ph: "phase1 N s nrc" and p: "p < N"
  shows "phase1 N (fst (split_parent p (s, nrc))) (snd (split_parent p (s, nrc))) \<and>
         same_classes s (fst (split_parent p (s, nrc))) \<and> nrc \<le> snd (split_parent p (s, nrc))"
proof -
  let ?V = "set (take nrc (visited_class_of s))"
  have inv: "hinv N s ?V" and dist: "distinct (take nrc (visited_class_of s))" and nrc: "nrc \<le> N"
    using ph by (simp_all add: phase1_def)
  note pm = hinvD(1) [OF inv] and ok = hinvD(2) [OF inv] and mk = hinvD(3) [OF inv]
    and wl = hinvD(4) [OF inv] and lv = hinvD(5) [OF inv] and le = hinvD(6) [OF inv]
  define cp where "cp = class_of s ! p"
  have cp: "cp < nclass_of s" and range: "lo s cp \<le> partition_of s ! p" "partition_of s ! p < hi s cp"
    using classes_okD(4-6) [OF ok p] by (simp_all add: cp_def)
  have cpN: "cp < N" using cp classes_okD(3) [OF ok] by simp
  define fresh where "fresh = (pt_visited_class_of s ! cp = 0)"
  define s1 where "s1 = (if fresh
      then s\<lparr>visited_class_of := (visited_class_of s)[nrc := cp],
             pt_visited_class_of := (pt_visited_class_of s)[cp := fst (class_indices_of s ! cp)]\<rparr>
      else s)"
  define nrc1 where "nrc1 = (if fresh then nrc + 1 else nrc)"
  define ep where "ep = pt_visited_class_of s1 ! cp"
  have unfold: "split_parent p (s, nrc) =
     (if ep > partition_of s1 ! p then (s1, nrc1)
      else (let s2 = swap (partitioni_of s1 ! ep) p s1
            in (s2\<lparr>pt_visited_class_of := (pt_visited_class_of s2)[cp := pt_visited_class_of s2 ! cp + 1]\<rparr>,
                nrc1)))"
    by (simp add: split_parent_def Let_def cp_def fresh_def s1_def nrc1_def ep_def)
  have fields1: "partition_of s1 = partition_of s" "partitioni_of s1 = partitioni_of s"
    "class_of s1 = class_of s" "class_indices_of s1 = class_indices_of s" "nclass_of s1 = nclass_of s"
    "L_of s1 = L_of s" "nL_of s1 = nL_of s" "etats_of s1 = etats_of s"
    by (simp_all add: s1_def)
  have notin: "cp \<notin> ?V" if fresh
  proof
    assume "cp \<in> ?V"
    then have "lo s cp < pt_visited_class_of s ! cp" by (rule marks_okD(4) [OF mk])
    then show False using that by (simp add: fresh_def)
  qed
  have room: "nrc < N" if fresh
  proof -
    have "?V \<subseteq> {..<nclass_of s} - {cp}" using marks_okD(3) [OF mk] notin [OF that] by auto
    then have "card ?V \<le> card ({..<nclass_of s} - {cp})" by (intro card_mono) simp_all
    moreover have "card ?V = nrc" using dist nrc lv by (simp add: distinct_card)
    moreover have "card ({..<nclass_of s} - {cp}) = nclass_of s - 1" using cp by simp
    ultimately show ?thesis using cp classes_okD(3) [OF ok] by simp
  qed
  let ?V1 = "set (take nrc1 (visited_class_of s1))"
  have V1: "?V1 = (if fresh then insert cp ?V else ?V)"
    and dist1: "distinct (take nrc1 (visited_class_of s1))" and nrc1: "nrc1 \<le> N"
    and lv1: "length (visited_class_of s1) = N"
  proof -
    show "?V1 = (if fresh then insert cp ?V else ?V)"
      using room lv by (auto simp: s1_def nrc1_def take_Suc_conv_app_nth)
    show "distinct (take nrc1 (visited_class_of s1))"
      using room lv dist notin by (auto simp: s1_def nrc1_def take_Suc_conv_app_nth)
    show "nrc1 \<le> N" using room nrc by (auto simp: nrc1_def)
    show "length (visited_class_of s1) = N" using lv by (simp add: s1_def)
  qed
  have cpV1: "cp \<in> ?V1"
  proof (cases fresh)
    case True
    then show ?thesis by (simp add: V1)
  next
    case False
    then have "cp \<in> ?V" using marks_okD(2) [OF mk cpN] by (auto simp: fresh_def)
    then show ?thesis using False by (simp add: V1)
  qed
  have pt1: "pt_visited_class_of s1 ! c = (if fresh \<and> c = cp then lo s cp else pt_visited_class_of s ! c)"
    for c
    using cpN marks_okD(1) [OF mk] by (simp add: s1_def lo_def)
  have len1: "length (pt_visited_class_of s1) = N" using marks_okD(1) [OF mk] by (simp add: s1_def)
  have ep_lo: "lo s cp \<le> ep"
    using marks_okD(4) [OF mk, of cp] cpV1 by (auto simp: ep_def pt1 V1 split: if_splits)
  have ep_hi: "ep \<le> hi s cp"
    using marks_okD(5) [OF mk, of cp] cpV1 range by (auto simp: ep_def pt1 V1 split: if_splits)
  have out1: "pt_visited_class_of s1 ! c = 0" if "c < N" "c \<notin> ?V1" for c
    using marks_okD(2) [OF mk that(1)] that(2) by (auto simp: pt1 V1 split: if_splits)
  have in1: "c < nclass_of s \<and> lo s c < pt_visited_class_of s1 ! c \<and> pt_visited_class_of s1 ! c \<le> hi s c"
    if "c \<in> ?V1" "c \<noteq> cp" for c
    using marks_okD(3-5) [OF mk, of c] that by (auto simp: pt1 V1 split: if_splits)
  have pm1: "perm_ok N s1" using pm by (simp add: perm_ok_cong [OF fields1(1,2)])
  have ok1: "classes_ok N s1" using ok by (simp add: classes_ok_cong [OF fields1(1-5)])
  have wl1: "worklist_ok N s1" using wl by (simp add: worklist_ok_cong [OF fields1(6,7,5)])
  have lh1: "lo s1 c = lo s c" "hi s1 c = hi s c" for c
    by (simp_all add: lo_hi_cong [OF fields1(4)])
  show ?thesis
  proof (cases "ep > partition_of s1 ! p")
    case True
    then have res: "split_parent p (s, nrc) = (s1, nrc1)" by (simp add: unfold)
    have "lo s cp < ep" using True range(1) by (simp add: fields1)
    then have "marks_ok N s1 ?V1"
      unfolding marks_ok_def lh1 fields1
      using len1 out1 in1 cp ep_hi by (auto simp: ep_def)
    then have "hinv N s1 ?V1" using pm1 ok1 wl1 lv1 le by (simp add: hinv_def fields1)
    then show ?thesis
      using dist1 nrc1 by (simp add: res phase1_def same_classes_def fields1 nrc1_def)
  next
    case False
    then have ep_p: "ep \<le> partition_of s ! p" by (simp add: fields1)
    then have ep_in: "ep < hi s cp" using range(2) by simp
    define q where "q = partitioni_of s ! ep"
    have epN: "ep < N" and cq: "class_of s ! q = cp"
      using classes_okD(7,8) [OF ok cp ep_lo ep_in] by (simp_all add: q_def)
    have q: "q < N" using perm_okD(5) [OF pm epN] by (simp add: q_def)
    define s2 where "s2 = swap q p s1"
    define s3 where "s3 = s2\<lparr>pt_visited_class_of := (pt_visited_class_of s2)[cp := ep + 1]\<rparr>"
    have res: "split_parent p (s, nrc) = (s3, nrc1)"
      using False by (simp add: unfold Let_def s3_def s2_def q_def fields1 ep_def)
    have pm2: "perm_ok N s2" unfolding s2_def by (rule swap_perm_ok [OF pm1 q p])
    have ok2: "classes_ok N s2"
      unfolding s2_def by (rule swap_classes_ok [OF pm1 ok1 p q]) (simp add: fields1 cq cp_def)
    have fields3: "partition_of s3 = partition_of s2" "partitioni_of s3 = partitioni_of s2"
      "class_of s3 = class_of s" "class_indices_of s3 = class_indices_of s" "nclass_of s3 = nclass_of s"
      "L_of s3 = L_of s" "nL_of s3 = nL_of s" "etats_of s3 = etats_of s"
      "visited_class_of s3 = visited_class_of s1"
      by (simp_all add: s3_def s2_def fields1)
    have fields2: "class_of s2 = class_of s" "class_indices_of s2 = class_indices_of s"
      "nclass_of s2 = nclass_of s"
      by (simp_all add: s2_def fields1)
    have pm3: "perm_ok N s3" using pm2 by (simp add: perm_ok_cong [OF fields3(1,2)])
    have ok3: "classes_ok N s3"
      using ok2 classes_ok_cong [of s3 s2 N] by (simp add: fields3 fields2)
    have wl3: "worklist_ok N s3" using wl by (simp add: worklist_ok_cong [OF fields3(6,7,5)])
    have lh3: "lo s3 c = lo s c" "hi s3 c = hi s c" for c
      by (simp_all add: lo_hi_cong [OF fields3(4)])
    have pt3: "pt_visited_class_of s3 ! c = (if c = cp then ep + 1 else pt_visited_class_of s1 ! c)" for c
      using cpN len1 by (simp add: s3_def s2_def)
    have len3: "length (pt_visited_class_of s3) = N" using len1 by (simp add: s3_def s2_def)
    have "marks_ok N s3 ?V1"
      unfolding marks_ok_def lh3 fields3(5) pt3
      using len3 out1 in1 cp ep_lo ep_in cpV1 by auto
    then have "hinv N s3 ?V1" using pm3 ok3 wl3 lv1 le by (simp add: hinv_def fields3)
    then show ?thesis
      using dist1 nrc1 by (simp add: res phase1_def same_classes_def fields3 nrc1_def)
  qed
qed

lemma fold_split_parent_phase1:
  "phase1 N s nrc \<Longrightarrow> \<forall>p \<in> set ps. p < N \<Longrightarrow>
   phase1 N (fst (fold split_parent ps (s, nrc))) (snd (fold split_parent ps (s, nrc))) \<and>
   same_classes s (fst (fold split_parent ps (s, nrc))) \<and> nrc \<le> snd (fold split_parent ps (s, nrc))"
proof (induction ps arbitrary: s nrc)
  case Nil
  then show ?case by simp
next
  case (Cons p ps)
  obtain s1 nrc1 where st: "split_parent p (s, nrc) = (s1, nrc1)" by (cases "split_parent p (s, nrc)")
  have p: "p < N" and ps: "\<forall>p \<in> set ps. p < N" using Cons.prems(2) by simp_all
  have ph1: "phase1 N s1 nrc1" and sc1: "same_classes s s1" and le1: "nrc \<le> nrc1"
    using split_parent_phase1 [OF Cons.prems(1) p] by (simp_all add: st)
  show ?case
    using Cons.IH [OF ph1 ps] same_classes_trans [OF sc1] le1 by (auto simp: st)
qed

lemma trans_okD: "trans_ok N na t \<Longrightarrow> e < N \<Longrightarrow> a < na \<Longrightarrow> p \<in> set (t ! e ! a) \<Longrightarrow> p < N"
  unfolding trans_ok_def by blast

lemma phase1_outer:
  assumes t: "trans_ok N na t" and a: "a < na"
  shows "phase1 N s nrc \<Longrightarrow> \<forall>i \<in> set is. etats_of s ! i < N \<Longrightarrow>
     phase1 N (fst (fold (\<lambda>i st. fold split_parent (t ! (etats_of (fst st) ! i) ! a) st) is (s, nrc)))
       (snd (fold (\<lambda>i st. fold split_parent (t ! (etats_of (fst st) ! i) ! a) st) is (s, nrc))) \<and>
     same_classes s (fst (fold (\<lambda>i st. fold split_parent (t ! (etats_of (fst st) ! i) ! a) st) is (s, nrc)))"
proof (induction "is" arbitrary: s nrc)
  case Nil
  then show ?case by simp
next
  case (Cons i "is")
  let ?ps = "t ! (etats_of s ! i) ! a"
  obtain s1 nrc1 where st: "fold split_parent ?ps (s, nrc) = (s1, nrc1)"
    by (cases "fold split_parent ?ps (s, nrc)")
  have "etats_of s ! i < N" using Cons.prems(2) by simp
  then have "\<forall>p \<in> set ?ps. p < N" using trans_okD [OF t _ a] by blast
  then have ph1: "phase1 N s1 nrc1" and sc1: "same_classes s s1"
    using fold_split_parent_phase1 [OF Cons.prems(1), of ?ps] by (simp_all add: st)
  have "\<forall>i \<in> set is. etats_of s1 ! i < N" using Cons.prems(2) sc1 by (simp add: same_classes_def)
  then show ?case
    using Cons.IH [OF ph1] same_classes_trans [OF sc1] by (simp add: st)
qed

lemma fold_update_nth:
  "i < length e \<Longrightarrow> i \<in> set is \<or> e ! i = f i \<Longrightarrow> fold (\<lambda>i e. e[i := f i]) is e ! i = f i"
proof (induction "is" arbitrary: e)
  case Nil
  then show ?case by simp
next
  case (Cons x "is")
  have "i \<in> set is \<or> e[x := f x] ! i = f i"
    using Cons.prems by (cases "i = x") auto
  then show ?case using Cons.IH [of "e[x := f x]"] Cons.prems(1) by simp
qed

lemma fold_update_length [simp]: "length (fold (\<lambda>i e. e[g i := f i]) is e) = length e"
  by (induction "is" arbitrary: e) simp_all

lemma copy_etats:
  "fold (\<lambda>i s. s\<lparr>etats_of := (etats_of s)[i := partitioni_of s ! i]\<rparr>) is s =
   s\<lparr>etats_of := fold (\<lambda>i e. e[i := partitioni_of s ! i]) is (etats_of s)\<rparr>"
  by (induction "is" arbitrary: s) simp_all

lemma fold_class_update:
  "fold (\<lambda>j s. s\<lparr>class_of := (class_of s)[partitioni_of s ! j := nclass_of s]\<rparr>) is s =
   s\<lparr>class_of := fold (\<lambda>j cl. cl[partitioni_of s ! j := nclass_of s]) is (class_of s)\<rparr>"
  by (induction "is" arbitrary: s) simp_all

lemma fold_const_update_nth:
  "p < length cl \<Longrightarrow> fold (\<lambda>j cl. cl[g j := K]) is cl ! p = (if p \<in> g ` set is then K else cl ! p)"
proof (induction "is" arbitrary: cl)
  case Nil
  then show ?case by simp
next
  case (Cons x "is")
  show ?case using Cons.IH [of "cl[g x := K]"] Cons.prems by (auto simp: nth_list_update)
qed

text \<open>A class that is cut leaves room for one more class.\<close>

lemma split_room:
  assumes pm: "perm_ok N s" and ok: "classes_ok N s" and ne: "allne s"
    and cp: "cp < nclass_of s" and j: "lo s cp < j" "j < hi s cp"
  shows "nclass_of s < N"
proof -
  define K where "K = nclass_of s"
  define g where "g = (\<lambda>c. if c = K then j else lo s c)"
  have cls: "class_of s ! (partitioni_of s ! lo s c) = c \<and> lo s c < N" if "c < K" for c
  proof -
    have "lo s c < hi s c" using ne that by (simp add: allne_def K_def)
    then show ?thesis using classes_okD(7,8) [OF ok, of c "lo s c"] that by (simp add: K_def)
  qed
  have clj: "class_of s ! (partitioni_of s ! j) = cp" "j < N"
    using classes_okD(7,8) [OF ok cp, of j] j by simp_all
  have lo_inj: "c = c'" if "c < K" "c' < K" "lo s c = lo s c'" for c c'
  proof -
    have "class_of s ! (partitioni_of s ! lo s c) = c" using cls [OF that(1)] by simp
    moreover have "class_of s ! (partitioni_of s ! lo s c) = c'" using cls [OF that(2)] that(3) by simp
    ultimately show ?thesis by simp
  qed
  have lo_j: "lo s c \<noteq> j" if "c < K" for c
  proof
    assume eq: "lo s c = j"
    have "class_of s ! (partitioni_of s ! j) = c" using cls [OF that] eq by simp
    then have "c = cp" using clj(1) by simp
    then show False using eq j(1) by simp
  qed
  have "inj_on g {..K}"
  proof (rule inj_onI)
    fix c c' assume c: "c \<in> {..K}" "c' \<in> {..K}" and eq: "g c = g c'"
    consider "c = K" "c' = K" | "c < K" "c' = K" | "c = K" "c' < K" | "c < K" "c' < K"
      using c by fastforce
    then show "c = c'"
    proof cases
      case 1
      then show ?thesis by simp
    next
      case 2
      then have "lo s c = j" using eq by (simp add: g_def)
      then show ?thesis using lo_j [OF 2(1)] by simp
    next
      case 3
      then have "lo s c' = j" using eq by (simp add: g_def)
      then show ?thesis using lo_j [OF 3(2)] by simp
    next
      case 4
      then have "lo s c = lo s c'" using eq by (simp add: g_def)
      then show ?thesis by (rule lo_inj [OF 4])
    qed
  qed
  moreover have "g ` {..K} \<subseteq> {..<N}"
  proof
    fix x assume "x \<in> g ` {..K}"
    then obtain c where c: "c \<le> K" "x = g c" by auto
    show "x \<in> {..<N}"
    proof (cases "c = K")
      case True
      then show ?thesis using c clj(2) by (simp add: g_def)
    next
      case False
      then have "c < K" using c by simp
      then show ?thesis using cls [of c] c False by (simp add: g_def)
    qed
  qed
  ultimately have "card {..K} \<le> card {..<N}" by (intro card_inj_on_le) simp_all
  then show ?thesis by (simp add: K_def)
qed

text \<open>The second part of \<^verbatim>\<open>split\<close>, for one class met.\<close>

lemma split_class_ok:
  assumes inv: "hinv N s V" and ne: "allne s" and cpV: "cp \<in> V"
  shows "hinv N (split_class cp s) (V - {cp}) \<and> allne (split_class cp s) \<and>
         nclass_of (split_class cp s) - nL_of (split_class cp s) = nclass_of s - nL_of s \<and>
         nclass_of s \<le> nclass_of (split_class cp s) \<and>
         visited_class_of (split_class cp s) = visited_class_of s"
proof -
  note pm = hinvD(1) [OF inv] and ok = hinvD(2) [OF inv] and mk = hinvD(3) [OF inv]
    and wl = hinvD(4) [OF inv] and lv = hinvD(5) [OF inv] and le = hinvD(6) [OF inv]
  define l h j K where "l = lo s cp" and "h = hi s cp" and "j = pt_visited_class_of s ! cp"
    and "K = nclass_of s"
  have cp: "cp < K" and lj: "l < j" and jh: "j \<le> h"
    using marks_okD(3-5) [OF mk cpV] by (simp_all add: l_def h_def j_def K_def)
  have KN: "K \<le> N" using classes_okD(3) [OF ok] by (simp add: K_def)
  have cpN: "cp < N" using cp KN by simp
  have lenpt: "length (pt_visited_class_of s) = N" by (rule marks_okD(1) [OF mk])
  show ?thesis
  proof (cases "j < h")
    case False
    then have res: "split_class cp s = s\<lparr>pt_visited_class_of := (pt_visited_class_of s)[cp := 0]\<rparr>"
      by (simp add: split_class_def Let_def j_def h_def hi_def)
    let ?s' = "s\<lparr>pt_visited_class_of := (pt_visited_class_of s)[cp := 0]\<rparr>"
    have lh: "lo ?s' c = lo s c" "hi ?s' c = hi s c" for c by (simp_all add: lo_def hi_def)
    have "marks_ok N ?s' (V - {cp})"
      unfolding marks_ok_def lh
      using lenpt cpN marks_okD(2) [OF mk] marks_okD(3-5) [OF mk]
      by (auto simp: nth_list_update)
    moreover have "perm_ok N ?s'" using pm by (simp add: perm_ok_def)
    moreover have "classes_ok N ?s'" using ok by (simp add: classes_ok_def lh)
    moreover have "worklist_ok N ?s'" using wl by (simp add: worklist_ok_def)
    ultimately have "hinv N ?s' (V - {cp})" using lv le by (simp add: hinv_def)
    moreover have "allne ?s'" using ne by (simp add: allne_def lh)
    ultimately show ?thesis by (simp add: res)
  next
    case True
    have room: "K < N"
      unfolding K_def using split_room [OF pm ok ne, of cp j] cp lj True
      by (simp add: K_def l_def h_def)
    define left where "left = (h - j > j - l)"
    define ol oh nl nh where "ol = (if left then j else l)" and "oh = (if left then h else j)"
      and "nl = (if left then l else j)" and "nh = (if left then j else h)"
    have parts: "nl < nh" "ol < oh" "l \<le> nl" "nh \<le> h" "l \<le> ol" "oh \<le> h"
      using lj True by (simp_all add: ol_def oh_def nl_def nh_def)
    have cover: "(l \<le> i \<and> i < h) = ((nl \<le> i \<and> i < nh) \<or> (ol \<le> i \<and> i < oh))"
      "\<not> ((nl \<le> i \<and> i < nh) \<and> (ol \<le> i \<and> i < oh))" for i
      using lj True by (auto simp: ol_def oh_def nl_def nh_def)
    define ci where "ci = (class_indices_of s)[cp := (ol, oh), K := (nl, nh)]"
    define cl where "cl = fold (\<lambda>j cl. cl[partitioni_of s ! j := K]) [nl..<nh] (class_of s)"
    define s' where "s' = s\<lparr>class_indices_of := ci, class_of := cl, L_of := (L_of s)[nL_of s := K],
        nL_of := nL_of s + 1, nclass_of := K + 1,
        pt_visited_class_of := (pt_visited_class_of s)[cp := 0]\<rparr>"
    have lenci: "length (class_indices_of s) = N" by (rule classes_okD(2) [OF ok])
    have ciK: "ci ! K = (nl, nh)" and cicp: "ci ! cp = (ol, oh)"
      and ci_other: "\<And>c. c \<noteq> cp \<Longrightarrow> c \<noteq> K \<Longrightarrow> ci ! c = class_indices_of s ! c"
      using room cpN cp lenci by (simp_all add: ci_def)
    have res: "split_class cp s = s'"
    proof (cases left)
      case True
      then have "h - j > j - l" by (simp add: left_def)
      then show ?thesis
        using \<open>j < h\<close> ciK True
        by (simp add: split_class_def Let_def fold_class_update s'_def cl_def ci_def
            ol_def oh_def nl_def nh_def l_def h_def j_def K_def lo_def hi_def)
    next
      case False
      then have "\<not> h - j > j - l" by (simp add: left_def)
      then show ?thesis
        using \<open>j < h\<close> ciK False
        by (simp add: split_class_def Let_def fold_class_update s'_def cl_def ci_def
            ol_def oh_def nl_def nh_def l_def h_def j_def K_def lo_def hi_def)
    qed
    have lh: "lo s' c = (if c = K then nl else if c = cp then ol else lo s c)"
      "hi s' c = (if c = K then nh else if c = cp then oh else hi s c)" for c
      using ciK cicp ci_other [of c] by (auto simp: s'_def lo_def hi_def)
    have fields: "partition_of s' = partition_of s" "partitioni_of s' = partitioni_of s"
      "nclass_of s' = K + 1" "nL_of s' = nL_of s + 1" "L_of s' = (L_of s)[nL_of s := K]"
      "class_of s' = cl" "visited_class_of s' = visited_class_of s" "etats_of s' = etats_of s"
      "pt_visited_class_of s' = (pt_visited_class_of s)[cp := 0]"
      by (simp_all add: s'_def)
    have lencl: "length (class_of s) = N" by (rule classes_okD(1) [OF ok])
    have nhN: "nh \<le> N"
    proof -
      have "lo s cp \<le> nh - 1" "nh - 1 < hi s cp" using parts by (simp_all add: l_def h_def)
      then have "nh - 1 < N" using classes_okD(7) [OF ok, of cp "nh - 1"] cp by (simp add: K_def)
      then show ?thesis using parts(1) by simp
    qed
    have moved: "(p \<in> (\<lambda>j. partitioni_of s ! j) ` set [nl..<nh]) = (nl \<le> partition_of s ! p \<and> partition_of s ! p < nh)"
      if p: "p < N" for p
    proof
      assume "p \<in> (\<lambda>j. partitioni_of s ! j) ` set [nl..<nh]"
      then obtain i where i: "nl \<le> i" "i < nh" "p = partitioni_of s ! i" by auto
      then have "partition_of s ! p = i" using perm_okD(6) [OF pm, of i] nhN by simp
      then show "nl \<le> partition_of s ! p \<and> partition_of s ! p < nh" using i by simp
    next
      assume "nl \<le> partition_of s ! p \<and> partition_of s ! p < nh"
      moreover have "p = partitioni_of s ! (partition_of s ! p)" using perm_okD(4) [OF pm p] by simp
      ultimately show "p \<in> (\<lambda>j. partitioni_of s ! j) ` set [nl..<nh]" by (metis atLeastLessThan_iff image_eqI set_upt)
    qed
    have clp: "cl ! p = (if nl \<le> partition_of s ! p \<and> partition_of s ! p < nh then K else class_of s ! p)"
      if p: "p < N" for p
      unfolding cl_def using fold_const_update_nth [of p "class_of s" "\<lambda>j. partitioni_of s ! j" K "[nl..<nh]"]
        lencl p moved [OF p] by simp
    have a: "cl ! p < K + 1 \<and> lo s' (cl ! p) \<le> partition_of s ! p \<and> partition_of s ! p < hi s' (cl ! p)"
      if p: "p < N" for p
    proof (cases "nl \<le> partition_of s ! p \<and> partition_of s ! p < nh")
      case True
      then show ?thesis by (simp add: clp [OF p] lh)
    next
      case out: False
      note old = classes_okD(4-6) [OF ok p]
      show ?thesis
      proof (cases "class_of s ! p = cp")
        case True
        then have "l \<le> partition_of s ! p \<and> partition_of s ! p < h" using old by (simp add: l_def h_def)
        then have "ol \<le> partition_of s ! p \<and> partition_of s ! p < oh" using cover(1) out by blast
        then show ?thesis using out True cp by (simp add: clp [OF p] lh)
      next
        case False
        then show ?thesis using out old by (simp add: clp [OF p] lh K_def)
      qed
    qed
    have b: "i < N \<and> cl ! (partitioni_of s ! i) = c" if c: "c < K + 1" and i: "lo s' c \<le> i" "i < hi s' c" for c i
    proof -
      have inl: "l \<le> i \<and> i < h \<Longrightarrow> i < N \<and> class_of s ! (partitioni_of s ! i) = cp"
        using classes_okD(7,8) [OF ok, of cp i] cp by (simp add: K_def l_def h_def)
      consider "c = K" | "c \<noteq> K" "c = cp" | "c \<noteq> K" "c \<noteq> cp" by blast
      then show ?thesis
      proof cases
        case 1
        then have r: "nl \<le> i \<and> i < nh" using i by (simp add: lh)
        then have iN: "i < N" using nhN by simp
        have "partitioni_of s ! i < N" "partition_of s ! (partitioni_of s ! i) = i"
          using perm_okD(5,6) [OF pm iN] by simp_all
        then show ?thesis using r iN 1 by (simp add: clp)
      next
        case 2
        then have r: "ol \<le> i \<and> i < oh" using i cp by (simp add: lh)
        then have "l \<le> i \<and> i < h" using cover(1) by blast
        then have iN: "i < N" and old: "class_of s ! (partitioni_of s ! i) = cp" using inl by simp_all
        have "partitioni_of s ! i < N" "partition_of s ! (partitioni_of s ! i) = i"
          using perm_okD(5,6) [OF pm iN] by simp_all
        moreover have "\<not> (nl \<le> i \<and> i < nh)" using cover(2) r by blast
        ultimately show ?thesis using iN 2 old by (auto simp: clp)
      next
        case 3
        then have cK: "c < nclass_of s" using c by (simp add: K_def)
        have r: "lo s c \<le> i" "i < hi s c" using i 3 by (simp_all add: lh)
        note old = classes_okD(7,8) [OF ok cK r]
        have "\<not> (l \<le> i \<and> i < h)" using inl old 3 by auto
        then have "\<not> (nl \<le> i \<and> i < nh)" using cover(1) by blast
        moreover have "partitioni_of s ! i < N" "partition_of s ! (partitioni_of s ! i) = i"
          using perm_okD(5,6) [OF pm old(1)] by simp_all
        ultimately show ?thesis using old by (auto simp: clp)
      qed
    qed
    have lens: "length cl = N" "length (class_indices_of s') = N"
      using lencl lenci by (simp_all add: cl_def s'_def ci_def)
    have ok': "classes_ok N s'"
      unfolding classes_ok_def fields
    proof (intro conjI allI impI)
      show "length cl = N" "length (class_indices_of s') = N" by (rule lens)+
      show "K + 1 \<le> N" using room by simp
    next
      fix p assume "p < N"
      then show "cl ! p < K + 1" "lo s' (cl ! p) \<le> partition_of s ! p" "partition_of s ! p < hi s' (cl ! p)"
        using a by blast+
    next
      fix c i assume "c < K + 1" "lo s' c \<le> i \<and> i < hi s' c"
      then show "i < N" "cl ! (partitioni_of s ! i) = c" using b by blast+
    qed
    have pm': "perm_ok N s'" using pm by (simp add: perm_ok_cong [OF fields(1,2)])
    have nL: "nL_of s < K" "length (L_of s) = N" "\<forall>i < nL_of s. L_of s ! i < K"
      using wl by (simp_all add: worklist_ok_def K_def)
    have "(L_of s)[nL_of s := K] ! i < K + 1" if "i < nL_of s + 1" for i
    proof (cases "i = nL_of s")
      case True
      then show ?thesis using nL room by simp
    next
      case False
      then have "i < nL_of s" using that by simp
      then have "L_of s ! i < K" using nL(3) by blast
      then show ?thesis using False by simp
    qed
    then have wl': "worklist_ok N s'"
      unfolding worklist_ok_def fields using nL room by simp
    have mk': "marks_ok N s' (V - {cp})"
      unfolding marks_ok_def fields
    proof (intro conjI allI impI)
      show "length ((pt_visited_class_of s)[cp := 0]) = N" using lenpt by simp
    next
      fix c assume "c < N" "c \<notin> V - {cp}"
      then show "(pt_visited_class_of s)[cp := 0] ! c = 0"
        using marks_okD(2) [OF mk, of c] lenpt by (cases "c = cp") auto
    next
      fix c assume c: "c \<in> V - {cp}"
      then have cK: "c < K" "c \<noteq> cp" using marks_okD(3) [OF mk, of c] by (simp_all add: K_def)
      then show "c < K + 1" by simp
      show "lo s' c < (pt_visited_class_of s)[cp := 0] ! c" "(pt_visited_class_of s)[cp := 0] ! c \<le> hi s' c"
        using marks_okD(4,5) [OF mk, of c] c cK by (simp_all add: lh)
    qed
    have inv': "hinv N s' (V - {cp})" using pm' ok' mk' wl' lv le by (simp add: hinv_def fields)
    have ne': "allne s'"
      unfolding allne_def fields lh using ne parts by (auto simp: allne_def K_def)
    show ?thesis
      unfolding res using inv' ne' nL(1) by (simp add: fields K_def)
  qed
qed

lemma fold_split_class_ok:
  "hinv N s (set (map (\<lambda>i. visited_class_of s ! i) is)) \<Longrightarrow>
   distinct (map (\<lambda>i. visited_class_of s ! i) is) \<Longrightarrow> allne s \<Longrightarrow>
   hinv N (fold (\<lambda>i s. split_class (visited_class_of s ! i) s) is s) {} \<and>
   allne (fold (\<lambda>i s. split_class (visited_class_of s ! i) s) is s) \<and>
   nclass_of (fold (\<lambda>i s. split_class (visited_class_of s ! i) s) is s) -
     nL_of (fold (\<lambda>i s. split_class (visited_class_of s ! i) s) is s) = nclass_of s - nL_of s \<and>
   nclass_of s \<le> nclass_of (fold (\<lambda>i s. split_class (visited_class_of s ! i) s) is s)"
proof (induction "is" arbitrary: s)
  case Nil
  then show ?case by simp
next
  case (Cons i "is")
  let ?cp = "visited_class_of s ! i"
  let ?V = "set (map (\<lambda>i. visited_class_of s ! i) (i # is))"
  let ?s1 = "split_class ?cp s"
  have cpV: "?cp \<in> ?V" by simp
  note step = split_class_ok [OF Cons.prems(1,3) cpV]
  have vis: "visited_class_of ?s1 = visited_class_of s" using step by simp
  have "?V - {?cp} = set (map (\<lambda>i. visited_class_of s ! i) is)" using Cons.prems(2) by auto
  then have inv1: "hinv N ?s1 (set (map (\<lambda>i. visited_class_of ?s1 ! i) is))"
    using step by (simp add: vis)
  have d1: "distinct (map (\<lambda>i. visited_class_of ?s1 ! i) is)" using Cons.prems(2) by (simp add: vis)
  have ne1: "allne ?s1" using step by simp
  show ?case using Cons.IH [OF inv1 d1 ne1] step by simp
qed

lemma map_nth_take: "n \<le> length xs \<Longrightarrow> map (\<lambda>i. xs ! i) [0..<n] = take n xs"
  by (simp add: list_eq_iff_nth_eq)

text \<open>A call of \<^verbatim>\<open>split\<close> keeps the arrays consistent, and adds as many classes to \<^verbatim>\<open>L\<close> as
  it creates.\<close>

lemma split_ok:
  assumes inv: "hinv N s {}" and ne: "allne s" and C: "C < nclass_of s"
    and t: "trans_ok N na t" and a: "a < na"
  shows "hinv N (split t C a s) {} \<and> allne (split t C a s) \<and>
         nclass_of (split t C a s) - nL_of (split t C a s) = nclass_of s - nL_of s \<and>
         nclass_of s \<le> nclass_of (split t C a s)"
proof -
  note pm = hinvD(1) [OF inv] and ok = hinvD(2) [OF inv] and mk = hinvD(3) [OF inv]
    and wl = hinvD(4) [OF inv] and lv = hinvD(5) [OF inv] and le = hinvD(6) [OF inv]
  define l h where "l = lo s C" and "h = hi s C"
  define s1 where "s1 = s\<lparr>etats_of := fold (\<lambda>i e. e[i := partitioni_of s ! i]) [l..<h] (etats_of s)\<rparr>"
  let ?F = "\<lambda>i st. fold split_parent (t ! (etats_of (fst st) ! i) ! a) st"
  obtain s2 nrc where st: "fold ?F [l..<h] (s1, 0) = (s2, nrc)" by (cases "fold ?F [l..<h] (s1, 0)")
  have res: "split t C a s = fold (\<lambda>i s. split_class (visited_class_of s ! i) s) [0..<nrc] s2"
    by (simp add: split_def Let_def copy_etats l_def [unfolded lo_def, symmetric]
        h_def [unfolded hi_def, symmetric] s1_def [symmetric] st)
  have lh1: "lo s1 c = lo s c" "hi s1 c = hi s c" for c by (simp_all add: s1_def lo_def hi_def)
  have inv1: "hinv N s1 {}"
    using pm ok mk wl lv le
    by (simp add: hinv_def s1_def perm_ok_def classes_ok_def marks_ok_def worklist_ok_def lo_def hi_def)
  then have ph1: "phase1 N s1 0" by (simp add: phase1_def)
  have et: "\<forall>i \<in> set [l..<h]. etats_of s1 ! i < N"
  proof
    fix i assume "i \<in> set [l..<h]"
    then have i: "lo s C \<le> i" "i < hi s C" by (simp_all add: l_def h_def)
    have iN: "i < N" by (rule classes_okD(7) [OF ok C i])
    have "etats_of s1 ! i = partitioni_of s ! i"
      unfolding s1_def using fold_update_nth [of i "etats_of s" "[l..<h]" "\<lambda>i. partitioni_of s ! i"]
        iN le i by (simp add: l_def h_def)
    then show "etats_of s1 ! i < N" using perm_okD(5) [OF pm iN] by simp
  qed
  have ph2: "phase1 N s2 nrc" and sc: "same_classes s1 s2"
    using phase1_outer [OF t a ph1 et] by (simp_all add: st)
  have inv2: "hinv N s2 (set (take nrc (visited_class_of s2)))"
    and d2: "distinct (take nrc (visited_class_of s2))" and nrc: "nrc \<le> N"
    using ph2 by (simp_all add: phase1_def)
  have lv2: "length (visited_class_of s2) = N" by (rule hinvD(5) [OF inv2])
  have m: "map (\<lambda>i. visited_class_of s2 ! i) [0..<nrc] = take nrc (visited_class_of s2)"
    using map_nth_take [of nrc "visited_class_of s2"] nrc lv2 by simp
  have same: "nclass_of s2 = nclass_of s" "nL_of s2 = nL_of s"
    using sc by (simp_all add: same_classes_def s1_def)
  have lh2: "lo s2 c = lo s c" "hi s2 c = hi s c" for c
    using same_classes_lo_hi [OF sc, of c] by (simp_all add: lh1)
  have ne2: "allne s2" using ne by (simp add: allne_def lh2 same)
  show ?thesis
    unfolding res
    using fold_split_class_ok [of N s2 "[0..<nrc]"] inv2 d2 ne2 by (simp add: m same)
qed

lemma split_empty:
  assumes "lo s C = hi s C"
  shows "split t C a s = s"
proof -
  have "fst (class_indices_of s ! C) = snd (class_indices_of s ! C)"
    using assms by (simp add: lo_def hi_def)
  then show ?thesis by (simp add: split_def Let_def)
qed

lemma fold_split_ok:
  assumes t: "trans_ok N na t"
  shows "hinv N s {} \<Longrightarrow> allne s \<Longrightarrow> C < nclass_of s \<Longrightarrow> set js \<subseteq> {..<na} \<Longrightarrow>
     hinv N (fold (\<lambda>j s. split t C j s) js s) {} \<and> allne (fold (\<lambda>j s. split t C j s) js s) \<and>
     nclass_of (fold (\<lambda>j s. split t C j s) js s) - nL_of (fold (\<lambda>j s. split t C j s) js s) =
       nclass_of s - nL_of s \<and>
     nclass_of s \<le> nclass_of (fold (\<lambda>j s. split t C j s) js s)"
proof (induction js arbitrary: s)
  case Nil
  then show ?case by simp
next
  case (Cons j js)
  have j: "j < na" and js: "set js \<subseteq> {..<na}" using Cons.prems(4) by simp_all
  note step = split_ok [OF Cons.prems(1,2,3) t j]
  have C1: "C < nclass_of (split t C j s)" using step Cons.prems(3) by simp
  show ?case using Cons.IH [of "split t C j s"] step C1 js by simp
qed

lemma fold_split_empty:
  "lo s C = hi s C \<Longrightarrow> fold (\<lambda>j s. split t C j s) js s = s"
  by (induction js) (simp_all add: split_empty)

lemma refine_step_ok:
  assumes t: "trans_ok N na t" and inv: "loop_inv N s" and nL: "nL_of s \<noteq> 0"
  shows "loop_inv N (refine_step t na s) \<and> measure_of N (refine_step t na s) < measure_of N s"
proof -
  have h: "hinv N s {}" and two: "2 \<le> nclass_of s" using inv by (simp_all add: loop_inv_def)
  note wl = hinvD(4) [OF h] and ok = hinvD(2) [OF h]
  define s1 where "s1 = s\<lparr>nL_of := nL_of s - 1\<rparr>"
  define C where "C = L_of s ! (nL_of s - 1)"
  have res: "refine_step t na s = fold (\<lambda>j s. split t C j s) [0..<na] s1"
    by (simp add: refine_step_def Let_def s1_def C_def)
  have C: "C < nclass_of s1" using wl nL by (simp add: worklist_ok_def C_def s1_def)
  have lh1: "lo s1 c = lo s c" "hi s1 c = hi s c" for c by (simp_all add: s1_def lo_def hi_def)
  have bound: "nclass_of s \<le> N" using classes_okD(3) [OF ok] .
  have nLc: "nL_of s < nclass_of s" using wl by (simp add: worklist_ok_def)
  have "worklist_ok N s1" using wl nLc by (simp add: worklist_ok_def s1_def)
  then have h1: "hinv N s1 {}"
    using hinvD(1-3,5,6) [OF h]
    by (simp add: hinv_def s1_def perm_ok_def classes_ok_def marks_ok_def lo_def hi_def)
  show ?thesis
  proof (cases "allne s")
    case True
    then have ne1: "allne s1" unfolding allne_def lh1 by (simp add: s1_def)
    have letters: "set [0..<na] \<subseteq> {..<na}" by auto
    note r = fold_split_ok [OF t h1 ne1 C letters]
    let ?s' = "fold (\<lambda>j s. split t C j s) [0..<na] s1"
    have h': "hinv N ?s' {}" and ne': "allne ?s'"
      and gap: "nclass_of ?s' - nL_of ?s' = nclass_of s - (nL_of s - 1)"
      and up: "nclass_of s \<le> nclass_of ?s'"
      using r by (simp_all add: s1_def)
    have b': "nclass_of ?s' \<le> N" using classes_okD(3) [OF hinvD(2) [OF h']] .
    have w': "nL_of ?s' < nclass_of ?s'" using hinvD(4) [OF h'] by (simp add: worklist_ok_def)
    have "measure_of N ?s' < measure_of N s"
      unfolding measure_of_def using gap up b' w' bound nLc nL by linarith
    then show ?thesis using h' ne' up two by (simp add: res loop_inv_def)
  next
    case False
    then have e: "lo s 0 = hi s 0" "\<forall>i < nL_of s. L_of s ! i = 0"
      using inv by (simp_all add: loop_inv_def)
    then have "C = 0" using nL by (simp add: C_def)
    then have "refine_step t na s = s1"
      unfolding res using fold_split_empty [of s1 C] e(1) by (simp add: lh1)
    moreover have "loop_inv N s1" unfolding loop_inv_def lh1 using h1 e two by (simp add: s1_def)
    moreover have "measure_of N s1 < measure_of N s" using nL by (simp add: measure_of_def s1_def)
    ultimately show ?thesis by simp
  qed
qed

text \<open>The main loop ends, with consistent arrays.\<close>

lemma main_loop_ends:
  assumes t: "trans_ok N na t" and inv: "loop_inv N s"
  shows "\<exists>s'. while_option (\<lambda>s. nL_of s \<noteq> 0) (refine_step t na) s = Some s' \<and>
              loop_inv N s' \<and> nL_of s' = 0"
proof -
  let ?b = "\<lambda>s. nL_of s \<noteq> 0" and ?c = "refine_step t na"
  have "Wellfounded.wf (measure (measure_of N))" by simp
  moreover have "{(s', s). (loop_inv N s \<and> ?b s) \<and> s' = ?c s} \<subseteq> measure (measure_of N)"
    using refine_step_ok [OF t] by auto
  ultimately have wf: "Wellfounded.wf {(s', s). (loop_inv N s \<and> ?b s) \<and> s' = ?c s}" by (rule wf_subset)
  have step: "\<And>s. loop_inv N s \<Longrightarrow> ?b s \<Longrightarrow> loop_inv N (?c s)"
    using refine_step_ok [OF t] by blast
  obtain s' where w: "while_option ?b ?c s = Some s'"
    using wf_while_option_Some [OF wf step inv] by blast
  have "loop_inv N s'" by (rule while_option_rule [where P = "loop_inv N", OF step w inv])
  moreover have "nL_of s' = 0" using while_option_stop [OF w] by simp
  ultimately show ?thesis using w by blast
qed

subsection \<open>The initial partition\<close>

lemma init_invD:
  assumes "init_inv a N k s f"
  shows "perm_ok N s" "f \<le> k" "length (class_of s) = N"
    "i < k \<Longrightarrow> class_of s ! i = (if partition_of s ! i < f then 0 else 1)"
    "i < k \<Longrightarrow> (class_of s ! i = 0) = (get_final a i \<noteq> 0)"
    "i < k \<Longrightarrow> partition_of s ! i < k"
    "k \<le> i \<Longrightarrow> i < N \<Longrightarrow> partition_of s ! i = i"
    "class_indices_of s = replicate N (0, 0)" "L_of s = replicate N 0"
    "pt_visited_class_of s = replicate N 0" "visited_class_of s = replicate N 0"
    "etats_of s = replicate N 0"
  using assms unfolding init_inv_def by blast+

lemma init_state_inv: "init_inv a (n + 1) 0 (init_state n) 0"
  by (simp add: init_inv_def init_state_def perm_ok_def del: upt_Suc)

lemma init_fold_step:
  assumes inv: "init_inv a N k s f" and k: "k < N"
  shows "init_inv a N (Suc k) (fst (init_fold a k (s, f))) (snd (init_fold a k (s, f)))"
proof -
  note pm = init_invD(1) [OF inv] and fk = init_invD(2) [OF inv] and len = init_invD(3) [OF inv]
    and rest = init_invD(8-12) [OF inv]
  have pk: "partition_of s ! k = k" using init_invD(7) [OF inv, of k] k by simp
  show ?thesis
  proof (cases "get_final a k \<noteq> 0")
    case False
    then have res: "init_fold a k (s, f) = (s\<lparr>class_of := (class_of s)[k := 1]\<rparr>, f)"
      by (simp add: init_fold_def)
    let ?s' = "s\<lparr>class_of := (class_of s)[k := 1]\<rparr>"
    have "perm_ok N ?s'" using pm by (simp add: perm_ok_def)
    moreover have "(class_of s)[k := 1] ! i = (if partition_of s ! i < f then 0 else 1)" if "i < Suc k" for i
      using init_invD(4) [OF inv, of i] that pk fk len k by (cases "i = k") auto
    moreover have "((class_of s)[k := 1] ! i = 0) = (get_final a i \<noteq> 0)" if "i < Suc k" for i
      using init_invD(5) [OF inv, of i] that False len k by (cases "i = k") auto
    moreover have "partition_of s ! i < Suc k" if "i < Suc k" for i
      using init_invD(6) [OF inv, of i] that pk by (cases "i = k") auto
    moreover have "partition_of s ! i = i" if "Suc k \<le> i \<and> i < N" for i
      using init_invD(7) [OF inv, of i] that by simp
    ultimately show ?thesis
      unfolding res init_inv_def using fk len rest by simp
  next
    case True
    define q where "q = partitioni_of s ! f"
    define s1 where "s1 = s\<lparr>class_of := (class_of s)[k := 0]\<rparr>"
    have res: "init_fold a k (s, f) = (swap q k s1, f + 1)"
      using True by (simp add: init_fold_def q_def s1_def)
    have fN: "f < N" using fk k by simp
    have q: "q < N" and pq: "partition_of s ! q = f"
      using perm_okD(5,6) [OF pm fN] by (simp_all add: q_def)
    have qk: "q \<le> k"
    proof (rule ccontr)
      assume "\<not> q \<le> k"
      then have "partition_of s ! q = q" using init_invD(7) [OF inv, of q] q by simp
      then show False using pq fk \<open>\<not> q \<le> k\<close> by simp
    qed
    have pm1: "perm_ok N s1" using pm by (simp add: perm_ok_def s1_def)
    have part1: "partition_of s1 = partition_of s" by (simp add: s1_def)
    note pt = swap_partition [OF pm1 q k, unfolded part1]
    have pm': "perm_ok N (swap q k s1)" by (rule swap_perm_ok [OF pm1 q k])
    have cl: "class_of (swap q k s1) = (class_of s)[k := 0]" by (simp add: s1_def)
    have fk': "q \<noteq> k \<Longrightarrow> f < k"
    proof -
      assume "q \<noteq> k"
      then have "partition_of s ! q \<noteq> partition_of s ! k" using perm_ok_inj [OF pm q k] by blast
      then show "f < k" using pq pk fk by simp
    qed
    have a: "(class_of s)[k := 0] ! i = (if partition_of (swap q k s1) ! i < f + 1 then 0 else 1)"
      if i: "i < Suc k" for i
    proof -
      consider "i = k" | "i \<noteq> k" "i = q" | "i \<noteq> k" "i \<noteq> q" by blast
      then show ?thesis
      proof cases
        case 1
        then show ?thesis using pq len k by (simp add: pt)
      next
        case 2
        then have "class_of s ! q = 1" using init_invD(4) [OF inv, of q] i pq by simp
        then show ?thesis using 2 pk fk' by (simp add: pt)
      next
        case 3
        then have ik: "i < k" using i by simp
        then have "partition_of s ! i \<noteq> f" using perm_ok_inj [OF pm _ q, of i] pq 3 k by auto
        then show ?thesis using 3 init_invD(4) [OF inv ik] by (auto simp: pt)
      qed
    qed
    have b: "((class_of s)[k := 0] ! i = 0) = (get_final a i \<noteq> 0)" if "i < Suc k" for i
      using init_invD(5) [OF inv, of i] that True len k by (cases "i = k") auto
    have c: "partition_of (swap q k s1) ! i < Suc k" if i: "i < Suc k" for i
      using init_invD(6) [OF inv, of i] i pk pq fk by (auto simp: pt less_Suc_eq)
    have d: "partition_of (swap q k s1) ! i = i" if "Suc k \<le> i \<and> i < N" for i
      using init_invD(7) [OF inv, of i] that qk by (simp add: pt)
    show ?thesis
      unfolding res init_inv_def fst_conv snd_conv cl
      using pm' fk len a b c d rest by (simp add: s1_def)
  qed
qed

lemma init_fold_inv:
  assumes "k \<le> n"
  shows "init_inv a (n + 1) k (fst (fold (init_fold a) [0..<k] (init_state n, 0)))
           (snd (fold (init_fold a) [0..<k] (init_state n, 0)))"
  using assms
proof (induction k)
  case 0
  show ?case using init_state_inv by simp
next
  case (Suc k)
  obtain s f where st: "fold (init_fold a) [0..<k] (init_state n, 0) = (s, f)"
    by (cases "fold (init_fold a) [0..<k] (init_state n, 0)")
  have "init_inv a (n + 1) k s f" using Suc by (simp add: st)
  then show ?case using init_fold_step [of a "n + 1" k s f] Suc.prems by (simp add: st)
qed

lemma initial_partition_unfold:
  "initial_partition a =
     (let n = n_of a;
          (s1, f) = fold (init_fold a) [0..<n] (init_state n, 0)
      in s1\<lparr>class_of := (class_of s1)[n := 1],
            class_indices_of := (class_indices_of s1)[0 := (0, f), 1 := (f, n + 1)],
            visited_class_of := (visited_class_of s1)[0 := 0, 1 := 0], nclass_of := 2,
            L_of := (L_of s1)[0 := (if f \<le> (n + 1) div 2 then 0 else 1)], nL_of := 1\<rparr>)"
proof -
  have "init_fold a = (\<lambda>i (s, f). if get_final a i \<noteq> 0
            then (swap (partitioni_of s ! f) i (s\<lparr>class_of := (class_of s)[i := 0]\<rparr>), f + 1)
            else (s\<lparr>class_of := (class_of s)[i := 1]\<rparr>, f))"
    by (rule ext) (simp add: init_fold_def)
  then show ?thesis
    by (simp add: initial_partition_def Let_def init_state_def split: prod.splits)
qed

lemma initial_partition_ok:
  assumes n: "0 < n_of a"
  shows "loop_inv (n_of a + 1) (initial_partition a)"
    and "\<forall>i \<le> n_of a. (class_of (initial_partition a) ! i = 0) = (i < n_of a \<and> get_final a i \<noteq> 0)"
proof -
  define n N where "n = n_of a" and "N = n + 1"
  obtain s1 f where st: "fold (init_fold a) [0..<n] (init_state n, 0) = (s1, f)"
    by (cases "fold (init_fold a) [0..<n] (init_state n, 0)")
  have inv: "init_inv a N n s1 f" using init_fold_inv [of n n a] by (simp add: st N_def)
  note pm = init_invD(1) [OF inv] and fn = init_invD(2) [OF inv] and len = init_invD(3) [OF inv]
    and rest = init_invD(8-12) [OF inv]
  define s' where "s' = s1\<lparr>class_of := (class_of s1)[n := 1],
            class_indices_of := (class_indices_of s1)[0 := (0, f), 1 := (f, n + 1)],
            visited_class_of := (visited_class_of s1)[0 := 0, 1 := 0], nclass_of := 2,
            L_of := (L_of s1)[0 := (if f \<le> (n + 1) div 2 then 0 else 1)], nL_of := 1\<rparr>"
  have res: "initial_partition a = s'"
    by (simp add: initial_partition_unfold Let_def n_def [symmetric] st s'_def)
  have N2: "2 \<le> N" using n by (simp add: N_def n_def)
  have pn: "partition_of s1 ! n = n" using init_invD(7) [OF inv, of n] by (simp add: N_def)
  have cls: "class_of s' ! i = (if partition_of s1 ! i < f then 0 else 1)" if "i < N" for i
  proof (cases "i = n")
    case True
    then show ?thesis using pn fn len by (simp add: s'_def N_def)
  next
    case False
    then have "i < n" using that by (simp add: N_def)
    then show ?thesis using init_invD(4) [OF inv, of i] False by (simp add: s'_def)
  qed
  have lh: "lo s' 0 = 0" "hi s' 0 = f" "lo s' (Suc 0) = f" "hi s' (Suc 0) = N"
    using N2 rest(1) by (simp_all add: lo_def hi_def s'_def N_def)
  have fields: "partition_of s' = partition_of s1" "partitioni_of s' = partitioni_of s1"
    "nclass_of s' = 2" "nL_of s' = 1" "pt_visited_class_of s' = replicate N 0"
    using rest by (simp_all add: s'_def)
  have pm': "perm_ok N s'" using pm by (simp add: perm_ok_cong [OF fields(1,2)])
  have a: "class_of s' ! p < 2 \<and> lo s' (class_of s' ! p) \<le> partition_of s1 ! p \<and>
           partition_of s1 ! p < hi s' (class_of s' ! p)" if p: "p < N" for p
    using perm_okD(3) [OF pm p] by (simp add: cls [OF p] lh)
  have b: "i < N \<and> class_of s' ! (partitioni_of s1 ! i) = c"
    if c: "c < 2" and i: "lo s' c \<le> i \<and> i < hi s' c" for c i
  proof -
    have c01: "c = 0 \<or> c = 1" using c by auto
    then have iN: "i < N" using i fn by (auto simp: lh N_def)
    have "partitioni_of s1 ! i < N" "partition_of s1 ! (partitioni_of s1 ! i) = i"
      using perm_okD(5,6) [OF pm iN] by simp_all
    then have "class_of s' ! (partitioni_of s1 ! i) = (if i < f then 0 else 1)" by (simp add: cls)
    then show ?thesis using iN c01 i by (auto simp: lh)
  qed
  have ok': "classes_ok N s'"
    unfolding classes_ok_def fields
  proof (intro conjI allI impI)
    show "length (class_of s') = N" using len by (simp add: s'_def)
    show "length (class_indices_of s') = N" using rest(1) by (simp add: s'_def)
    show "2 \<le> N" by (rule N2)
  next
    fix p assume "p < N"
    then show "class_of s' ! p < 2" "lo s' (class_of s' ! p) \<le> partition_of s1 ! p"
      "partition_of s1 ! p < hi s' (class_of s' ! p)" using a by blast+
  next
    fix c i assume "c < 2" "lo s' c \<le> i \<and> i < hi s' c"
    then show "i < N" "class_of s' ! (partitioni_of s1 ! i) = c" using b by blast+
  qed
  have mk': "marks_ok N s' {}" by (simp add: marks_ok_def fields)
  have wl': "worklist_ok N s'" using rest(2) N2 by (simp add: worklist_ok_def s'_def)
  have h': "hinv N s' {}"
    using pm' ok' mk' wl' rest by (simp add: hinv_def s'_def)
  have "allne s' \<or> (lo s' 0 = hi s' 0 \<and> (\<forall>i < nL_of s'. L_of s' ! i = 0))"
  proof (cases "f = 0")
    case True
    then have "L_of s' ! 0 = 0" using rest(2) N2 by (simp add: s'_def)
    then show ?thesis using True by (simp add: lh fields)
  next
    case False
    have "lo s' c < hi s' c" if "c < 2" for c
    proof -
      have "c = 0 \<or> c = 1" using that by auto
      then show ?thesis using False fn by (auto simp: lh N_def)
    qed
    then show ?thesis by (simp add: allne_def fields)
  qed
  then show "loop_inv (n_of a + 1) (initial_partition a)"
    using h' fields(3) by (simp add: loop_inv_def res N_def n_def)
  show "\<forall>i \<le> n_of a. (class_of (initial_partition a) ! i = 0) = (i < n_of a \<and> get_final a i \<noteq> 0)"
  proof (intro allI impI)
    fix i assume i: "i \<le> n_of a"
    show "(class_of (initial_partition a) ! i = 0) = (i < n_of a \<and> get_final a i \<noteq> 0)"
    proof (cases "i = n")
      case True
      then show ?thesis using len by (simp add: res s'_def n_def N_def)
    next
      case False
      then have "i < n" using i by (simp add: n_def)
      then show ?thesis using init_invD(5) [OF inv, of i] False by (simp add: res s'_def n_def)
    qed
  qed
qed

subsection \<open>The inverse of the transitions\<close>

lemma table_ok_empty: "table_ok N na (replicate N (replicate na []))"
  by (simp add: table_ok_def trans_ok_def)

lemma transitioni_add_ok:
  assumes "table_ok N na t" "i < N"
  shows "table_ok N na (transitioni_add f j i t)"
proof -
  have len: "length t = N" and rows: "\<And>e. e < N \<Longrightarrow> length (t ! e) = na"
    and els: "\<And>e a p. e < N \<Longrightarrow> a < na \<Longrightarrow> p \<in> set (t ! e ! a) \<Longrightarrow> p < N"
    using assms(1) unfolding table_ok_def trans_ok_def by blast+
  have "p < N" if "e < N" "a < na" "p \<in> set (transitioni_add f j i t ! e ! a)" for e a p
    using that els [of e a p] assms(2) len rows [of e]
    by (cases "e = f"; cases "a = j") (auto simp: transitioni_add_def)
  moreover have "length (transitioni_add f j i t ! e) = na" if "e < N" for e
    using rows [OF that] len that by (cases "e = f") (simp_all add: transitioni_add_def)
  ultimately show ?thesis using len by (simp add: table_ok_def trans_ok_def transitioni_add_def)
qed

lemma fold_transitioni_add_ok:
  "table_ok N na t \<Longrightarrow> i < N \<Longrightarrow> table_ok N na (fold (\<lambda>j t. transitioni_add (g j) j i t) js t)"
  by (induction js arbitrary: t) (simp_all add: transitioni_add_ok)

lemma build_transitioni_ok: "table_ok (n_of a + 1) (na_of a) (build_transitioni a)"
proof -
  let ?N = "n_of a + 1" and ?na = "na_of a"
  let ?row = "\<lambda>i. fold (\<lambda>j t. let f = get_f a i j in
                  if f \<noteq> -1 then transitioni_add (nat f) j i t
                  else transitioni_add (n_of a) j i t) [0..<?na]"
  have row: "?row i = fold (\<lambda>j t. transitioni_add (if get_f a i j \<noteq> -1 then nat (get_f a i j) else n_of a) j i t) [0..<?na]"
    for i
    by (rule arg_cong [where f = "\<lambda>F. fold F [0..<?na]"]) (auto simp: Let_def fun_eq_iff)
  have t0: "table_ok ?N ?na (replicate ?N (replicate ?na []))"
    by (rule table_ok_empty)
  have rows: "table_ok ?N ?na t \<Longrightarrow> set is \<subseteq> {..<n_of a} \<Longrightarrow> table_ok ?N ?na (fold ?row is t)" for "is" t
  proof (induction "is" arbitrary: t)
    case Nil
    then show ?case by simp
  next
    case (Cons i "is")
    have "table_ok ?N ?na (?row i t)"
      unfolding row using fold_transitioni_add_ok [OF Cons.prems(1), of i] Cons.prems(2) by simp
    then show ?case using Cons.IH [of "?row i t"] Cons.prems(2) by simp
  qed
  have "table_ok ?N ?na (fold ?row [0..<n_of a] (replicate ?N (replicate ?na [])))"
    by (rule rows [OF t0]) auto
  then show ?thesis
    unfolding build_transitioni_def Let_def
    using fold_transitioni_add_ok [of ?N ?na _ "n_of a" "\<lambda>j. n_of a" "[0..<?na]"] by simp
qed

text \<open>The main loop of \<^verbatim>\<open>Minimise\<close> ends for every automaton with a state.\<close>

lemma Minimise_ends:
  assumes "0 < n_of a"
  shows "\<exists>s. Minimise a = Some (quotient a s) \<and> loop_inv (n_of a + 1) s \<and> nL_of s = 0"
proof -
  have t: "trans_ok (n_of a + 1) (na_of a) (build_transitioni a)"
    using build_transitioni_ok [of a] by (simp add: table_ok_def)
  obtain s where "while_option (\<lambda>s. nL_of s \<noteq> 0) (refine_step (build_transitioni a) (na_of a))
                    (initial_partition a) = Some s" "loop_inv (n_of a + 1) s" "nL_of s = 0"
    using main_loop_ends [OF t initial_partition_ok(1) [OF assms]] by blast
  then show ?thesis by (auto simp: Minimise_def)
qed

subsection \<open>Vertex deletion in place\<close>

lemma DeleteVertex_cell_cong:
  assumes "get_f r (nat (int s + ge01 (int s) v)) j = get_f a (nat (int s + ge01 (int s) v)) j"
  shows "DeleteVertex_cell r v s j = DeleteVertex_cell a v s j"
  using assms by (simp add: DeleteVertex_cell_def)

text \<open>A row is rewritten from the left; the cell read is in the same column, of the same
  row or of the next one.\<close>

lemma inplace_row:
  assumes "k < n_of r" "c \<le> length (f_of (e_of r ! k))"
  shows "get_f (fold (\<lambda>j r. set_f r k j (DeleteVertex_cell r v k j)) [0..<c] r) s j =
         (if s = k \<and> j < c then DeleteVertex_cell r v k j else get_f r s j)"
  using assms(2)
proof (induction c arbitrary: s j)
  case 0
  show ?case by simp
next
  case (Suc c)
  let ?r1 = "fold (\<lambda>j r. set_f r k j (DeleteVertex_cell r v k j)) [0..<c] r"
  have IH: "get_f ?r1 s j = (if s = k \<and> j < c then DeleteVertex_cell r v k j else get_f r s j)" for s j
    using Suc by simp
  have cell: "DeleteVertex_cell ?r1 v k c = DeleteVertex_cell r v k c"
    by (rule DeleteVertex_cell_cong) (simp add: IH)
  have len: "c < length (f_of (e_of ?r1 ! k))" using Suc.prems by simp
  have n: "k < n_of ?r1" using assms(1) by simp
  show ?case
    using len n by (auto simp: get_f_set_f cell IH less_Suc_eq)
qed

lemma shifted_fields [simp]:
  "n_of (shifted a v s r) = n_of r" "na_of (shifted a v s r) = na_of r" "i_of (shifted a v s r) = i_of r"
  "length (f_of (e_of (shifted a v s r) ! s')) = length (f_of (e_of r ! s'))"
  by (simp_all add: shifted_def Let_def)

lemma fold_shifted_fields [simp]:
  "n_of (fold (shifted a v) ss r) = n_of r" "na_of (fold (shifted a v) ss r) = na_of r"
  "i_of (fold (shifted a v) ss r) = i_of r"
  "length (f_of (e_of (fold (shifted a v) ss r) ! s')) = length (f_of (e_of r ! s'))"
  by (induction ss arbitrary: r; simp)+

lemma inplace_rows:
  assumes rows: "\<forall>s < n_of a. length (f_of (e_of a ! s)) = na_of a" and v: "0 \<le> v"
  shows "k < n_of a \<Longrightarrow>
     (\<forall>s j. get_f (fold (shifted a v) [0..<k] a) s j =
        (if s < k \<and> j < na_of a then DeleteVertex_cell a v s j else get_f a s j)) \<and>
     (\<forall>s. get_final (fold (shifted a v) [0..<k] a) s =
        (if s < k then get_final a (nat (int s + ge01 (int s) v)) else get_final a s))"
proof (induction k)
  case 0
  show ?case by simp
next
  case (Suc k)
  let ?r = "fold (shifted a v) [0..<k] a"
  have k: "k < n_of a" using Suc.prems by simp
  have IHf: "get_f ?r s j = (if s < k \<and> j < na_of a then DeleteVertex_cell a v s j else get_f a s j)" for s j
    using Suc.IH [OF k] by simp
  have IHl: "get_final ?r s = (if s < k then get_final a (nat (int s + ge01 (int s) v)) else get_final a s)" for s
    using Suc.IH [OF k] by simp
  have fields: "n_of ?r = n_of a" "na_of ?r = na_of a"
    "length (f_of (e_of ?r ! s)) = length (f_of (e_of a ! s))" for s
    by simp_all
  let ?row = "fold (\<lambda>j r. set_f r k j (DeleteVertex_cell r v k j)) [0..<na_of a] ?r"
  have src: "\<not> nat (int k + ge01 (int k) v) < k" using v by (simp add: ge01_def nat_add_distrib)
  have cell: "DeleteVertex_cell ?r v k j = DeleteVertex_cell a v k j" for j
    by (rule DeleteVertex_cell_cong) (simp add: IHf src)
  have row: "get_f ?row s j = (if s = k \<and> j < na_of a then DeleteVertex_cell a v k j else get_f ?r s j)" for s j
    using inplace_row [of k ?r "na_of a" v s j] k rows by (simp add: fields cell)
  have step: "fold (shifted a v) [0..<Suc k] a =
        set_final ?row k (get_final ?row (nat (int k + ge01 (int k) v)))"
    by (simp add: shifted_def Let_def fields)
  have "get_f (fold (shifted a v) [0..<Suc k] a) s j =
        (if s < Suc k \<and> j < na_of a then DeleteVertex_cell a v s j else get_f a s j)" for s j
    unfolding step by (auto simp: row IHf less_Suc_eq)
  moreover have "get_final (fold (shifted a v) [0..<Suc k] a) s =
        (if s < Suc k then get_final a (nat (int s + ge01 (int s) v)) else get_final a s)" for s
    unfolding step using k src by (auto simp: get_final_set_final IHl fields less_Suc_eq)
  ultimately show ?case by blast
qed

lemma take_rows_obs:
  assumes "m \<le> n_of r"
  shows "n_of (r\<lparr>e_of := take m (e_of r)\<rparr>) = m"
    "s < m \<Longrightarrow> get_f (r\<lparr>e_of := take m (e_of r)\<rparr>) s j = get_f r s j"
    "s < m \<Longrightarrow> get_final (r\<lparr>e_of := take m (e_of r)\<rparr>) s = get_final r s"
    "s < m \<Longrightarrow> length (f_of (e_of (r\<lparr>e_of := take m (e_of r)\<rparr>) ! s)) = length (f_of (e_of r ! s))"
  using assms by (simp_all add: n_of_def get_f_def get_final_def)

lemma DeleteVertexOP_obs:
  assumes rows: "\<forall>s < n_of a. length (f_of (e_of a ! s)) = na_of a"
    and v: "0 \<le> v" and n: "2 \<le> n_of a"
  shows "n_of (DeleteVertexOP a v) = n_of a - 1" "na_of (DeleteVertexOP a v) = na_of a"
    "i_of (DeleteVertexOP a v) = (if v = i_of a then -1 else i_of a - ge01 (i_of a) v)"
    "s < n_of a - 1 \<Longrightarrow> j < na_of a \<Longrightarrow> get_f (DeleteVertexOP a v) s j = DeleteVertex_cell a v s j"
    "s < n_of a - 1 \<Longrightarrow> get_final (DeleteVertexOP a v) s = get_final a (nat (int s + ge01 (int s) v))"
    "s < n_of a - 1 \<Longrightarrow> length (f_of (e_of (DeleteVertexOP a v) ! s)) = na_of a"
proof -
  define m where "m = n_of a - 1"
  have m: "nat (int (n_of a) - 1) = m" "int (n_of a) - 1 \<noteq> 0" "m < n_of a"
    using n by (simp_all add: m_def)
  let ?a1 = "fold (shifted a v) [0..<m] a"
  have body: "(\<lambda>s a. let a' = fold (\<lambda>j a. set_f a s j (DeleteVertex_cell a v s j)) [0..<na_of a] a
                   in set_final a' s (get_final a' (nat (int s + ge01 (int s) v)))) = shifted a v"
    by (intro ext) (simp add: shifted_def)
  have fields: "n_of ?a1 = n_of a" "na_of ?a1 = na_of a" "i_of ?a1 = i_of a"
    "length (f_of (e_of ?a1 ! s)) = length (f_of (e_of a ! s))" for s
    by simp_all
  define a2 where "a2 = ?a1\<lparr>e_of := take m (e_of ?a1)\<rparr>"
  have "DeleteVertexOP a v =
     (let n' = int (n_of a) - 1 in
      if n' = 0 then a\<lparr>e_of := []\<rparr>
      else
        let a1 = fold (shifted a v) [0..<nat n'] a;
            a2 = a1\<lparr>e_of := take (nat n') (e_of a1)\<rparr>
        in if v = i_of a2 then a2\<lparr>i_of := -1\<rparr>
           else a2\<lparr>i_of := i_of a2 - ge01 (i_of a2) v\<rparr>)"
    by (simp only: DeleteVertexOP_def body)
  then have res: "DeleteVertexOP a v =
     (if v = i_of a then a2\<lparr>i_of := -1\<rparr> else a2\<lparr>i_of := i_of a - ge01 (i_of a) v\<rparr>)"
    using m(2) by (simp add: Let_def m(1) a2_def fields)
  have le: "m \<le> n_of ?a1" using m(3) by (simp add: fields)
  note tk = take_rows_obs [OF le, folded a2_def]
  note ip = inplace_rows [OF rows v m(3)]
  show "n_of (DeleteVertexOP a v) = n_of a - 1" using tk(1) by (simp add: res m_def)
  show "na_of (DeleteVertexOP a v) = na_of a" by (simp add: res a2_def fields)
  show "i_of (DeleteVertexOP a v) = (if v = i_of a then -1 else i_of a - ge01 (i_of a) v)"
    by (simp add: res)
  show "s < n_of a - 1 \<Longrightarrow> j < na_of a \<Longrightarrow> get_f (DeleteVertexOP a v) s j = DeleteVertex_cell a v s j"
    using tk(2) [of s j] ip by (simp add: res m_def)
  show "s < n_of a - 1 \<Longrightarrow> get_final (DeleteVertexOP a v) s = get_final a (nat (int s + ge01 (int s) v))"
    using tk(3) [of s] ip by (simp add: res m_def)
  show "s < n_of a - 1 \<Longrightarrow> length (f_of (e_of (DeleteVertexOP a v) ! s)) = na_of a"
    using tk(4) [of s] rows m(3) by (simp add: res m_def fields)
qed

subsection \<open>The shape of the quotient\<close>

lemma quotient_row_obs:
  assumes "j < na_of a"
  shows "f_of (quotient_row a s c) ! j =
     (if partitioni_of s ! lo s c \<ge> n_of a \<or> get_f a (partitioni_of s ! lo s c) j = -1 then -1
      else int (class_of s ! nat (get_f a (partitioni_of s ! lo s c) j)))"
    "final_of (quotient_row a s c) =
     (if partitioni_of s ! lo s c \<ge> n_of a then 0 else get_final a (partitioni_of s ! lo s c))"
    "length (f_of (quotient_row a s c)) = na_of a"
  using assms by (simp_all add: quotient_row_def Let_def lo_def)

lemma quotient_unfold:
  "quotient a s =
     (if hi s (class_of s ! n_of a) = lo s (class_of s ! n_of a) + 1
      then DeleteVertexOP (classes_automaton a s) (int (class_of s ! n_of a))
      else classes_automaton a s)"
  by (simp add: quotient_def Let_def classes_automaton_def lo_def hi_def)

lemma classes_automaton_obs:
  "n_of (classes_automaton a s) = nclass_of s" "na_of (classes_automaton a s) = na_of a"
  "i_of (classes_automaton a s) = (if i_of a \<noteq> -1 then int (class_of s ! nat (i_of a)) else -1)"
  "c < nclass_of s \<Longrightarrow> j < na_of a \<Longrightarrow> get_f (classes_automaton a s) c j =
     (if partitioni_of s ! lo s c \<ge> n_of a \<or> get_f a (partitioni_of s ! lo s c) j = -1 then -1
      else int (class_of s ! nat (get_f a (partitioni_of s ! lo s c) j)))"
  "c < nclass_of s \<Longrightarrow> get_final (classes_automaton a s) c =
     (if partitioni_of s ! lo s c \<ge> n_of a then 0 else get_final a (partitioni_of s ! lo s c))"
  "c < nclass_of s \<Longrightarrow> length (f_of (e_of (classes_automaton a s) ! c)) = na_of a"
proof -
  show "n_of (classes_automaton a s) = nclass_of s" "na_of (classes_automaton a s) = na_of a"
    "i_of (classes_automaton a s) = (if i_of a \<noteq> -1 then int (class_of s ! nat (i_of a)) else -1)"
    by (simp_all add: classes_automaton_def n_of_def)
  show "c < nclass_of s \<Longrightarrow> j < na_of a \<Longrightarrow> get_f (classes_automaton a s) c j =
     (if partitioni_of s ! lo s c \<ge> n_of a \<or> get_f a (partitioni_of s ! lo s c) j = -1 then -1
      else int (class_of s ! nat (get_f a (partitioni_of s ! lo s c) j)))"
    using quotient_row_obs(1) [of j a s c] by (simp add: classes_automaton_def get_f_def)
  show "c < nclass_of s \<Longrightarrow> get_final (classes_automaton a s) c =
     (if partitioni_of s ! lo s c \<ge> n_of a then 0 else get_final a (partitioni_of s ! lo s c))"
    by (simp add: classes_automaton_def get_final_def quotient_row_def Let_def lo_def)
  show "c < nclass_of s \<Longrightarrow> length (f_of (e_of (classes_automaton a s) ! c)) = na_of a"
    by (simp add: classes_automaton_def quotient_row_def Let_def)
qed

lemma classes_automaton_wf:
  assumes w: "wf a" and inv: "loop_inv (n_of a + 1) s"
  shows "wf (classes_automaton a s)"
proof -
  have h: "hinv (n_of a + 1) s {}" using inv by (simp add: loop_inv_def)
  note ok = hinvD(2) [OF h]
  note obs = classes_automaton_obs [where a = a and s = s]
  have tg: "\<And>e j. e < n_of a \<Longrightarrow> j < na_of a \<Longrightarrow> -1 \<le> get_f a e j \<and> get_f a e j < int (n_of a)"
    and fin: "\<And>e. e < n_of a \<Longrightarrow> get_final a e = 0 \<or> get_final a e = 1"
    and ini: "-1 \<le> i_of a" "i_of a < int (n_of a)"
    using w by (simp_all add: wf_def wf_targets_def wf_finals_def wf_init_def)
  have cls: "class_of s ! p < nclass_of s" if "p < n_of a" for p
    using classes_okD(4) [OF ok, of p] that by simp
  have "wf_rows (classes_automaton a s)" by (simp add: wf_rows_def obs)
  moreover have "wf_targets (classes_automaton a s)"
    unfolding wf_targets_def obs(1,2)
  proof (intro allI impI)
    fix c j assume c: "c < nclass_of s" and j: "j < na_of a"
    let ?e = "partitioni_of s ! lo s c"
    show "-1 \<le> get_f (classes_automaton a s) c j \<and> get_f (classes_automaton a s) c j < int (nclass_of s)"
    proof (cases "?e \<ge> n_of a \<or> get_f a ?e j = -1")
      case True
      then show ?thesis using obs(4) [OF c j] by simp
    next
      case False
      then have "nat (get_f a ?e j) < n_of a" using tg [of ?e j] j by auto
      then show ?thesis using obs(4) [OF c j] False cls by simp
    qed
  qed
  moreover have "wf_finals (classes_automaton a s)"
    unfolding wf_finals_def obs(1)
  proof (intro allI impI)
    fix c assume c: "c < nclass_of s"
    show "get_final (classes_automaton a s) c = 0 \<or> get_final (classes_automaton a s) c = 1"
      using obs(5) [OF c] fin [of "partitioni_of s ! lo s c"] by auto
  qed
  moreover have "wf_init (classes_automaton a s)"
  proof (cases "i_of a = -1")
    case True
    then show ?thesis by (simp add: wf_init_def obs)
  next
    case False
    then have "nat (i_of a) < n_of a" using ini by simp
    then show ?thesis using cls False by (simp add: wf_init_def obs)
  qed
  ultimately show ?thesis by (simp add: wf_def)
qed

text \<open>Deleting a state of a well-formed automaton with two states or more.\<close>

lemma DeleteVertexOP_wf:
  assumes w: "wf r" and n: "2 \<le> n_of r" and v: "0 \<le> v" "v < int (n_of r)"
  shows "wf (DeleteVertexOP r v)"
proof -
  have rows: "\<forall>s < n_of r. length (f_of (e_of r ! s)) = na_of r"
    using w by (simp add: wf_def wf_rows_def)
  note obs = DeleteVertexOP_obs [OF rows v(1) n]
  have tg: "\<And>e j. e < n_of r \<Longrightarrow> j < na_of r \<Longrightarrow> -1 \<le> get_f r e j \<and> get_f r e j < int (n_of r)"
    and fin: "\<And>e. e < n_of r \<Longrightarrow> get_final r e = 0 \<or> get_final r e = 1"
    and ini: "-1 \<le> i_of r" "i_of r < int (n_of r)"
    using w by (simp_all add: wf_def wf_targets_def wf_finals_def wf_init_def)
  have src: "nat (int s + ge01 (int s) v) < n_of r" if "s < n_of r - 1" for s
    using that by (auto simp: ge01_def nat_add_distrib)
  have "wf_rows (DeleteVertexOP r v)" by (simp add: wf_rows_def obs)
  moreover have "wf_targets (DeleteVertexOP r v)"
    unfolding wf_targets_def obs(1,2)
  proof (intro allI impI)
    fix s j assume s: "s < n_of r - 1" and j: "j < na_of r"
    have "-1 \<le> get_f r (nat (int s + ge01 (int s) v)) j \<and>
          get_f r (nat (int s + ge01 (int s) v)) j < int (n_of r)"
      by (rule tg [OF src [OF s] j])
    then show "-1 \<le> get_f (DeleteVertexOP r v) s j \<and> get_f (DeleteVertexOP r v) s j < int (n_of r - 1)"
      using v n unfolding obs(4) [OF s j] DeleteVertex_cell_def Let_def ge01_def by auto
  qed
  moreover have "wf_finals (DeleteVertexOP r v)"
    unfolding wf_finals_def obs(1) using fin src by (simp add: obs(5))
  moreover have "wf_init (DeleteVertexOP r v)"
    unfolding wf_init_def obs(1,3) using ini v n by (auto simp: ge01_def)
  ultimately show ?thesis by (simp add: wf_def)
qed

lemma quotient_wf:
  assumes w: "wf a" and inv: "loop_inv (n_of a + 1) s"
  shows "wf (quotient a s)" "na_of (quotient a s) = na_of a" "0 < n_of (quotient a s)"
    "i_of a \<noteq> -1 \<Longrightarrow> i_of (quotient a s) \<noteq> -1"
proof -
  let ?N = "n_of a + 1"
  have h: "hinv ?N s {}" and two: "2 \<le> nclass_of s" using inv by (simp_all add: loop_inv_def)
  note ok = hinvD(2) [OF h] and pm = hinvD(1) [OF h]
  note obs = classes_automaton_obs [where a = a and s = s]
  note wr = classes_automaton_wf [OF w inv]
  define c where "c = class_of s ! n_of a"
  have c: "c < nclass_of s" using classes_okD(4) [OF ok, of "n_of a"] by (simp add: c_def)
  have n2: "2 \<le> n_of (classes_automaton a s)" using two by (simp add: obs)
  have v: "0 \<le> int c" "int c < int (n_of (classes_automaton a s))" using c by (simp_all add: obs)
  have rows: "\<forall>s' < n_of (classes_automaton a s). length (f_of (e_of (classes_automaton a s) ! s')) = na_of (classes_automaton a s)"
    using wr by (simp add: wf_def wf_rows_def)
  note del = DeleteVertexOP_obs [OF rows v(1) n2]
  show "wf (quotient a s)"
    unfolding quotient_unfold c_def [symmetric] using wr DeleteVertexOP_wf [OF wr n2 v] by simp
  show "na_of (quotient a s) = na_of a"
    unfolding quotient_unfold c_def [symmetric] by (simp add: del obs)
  show "0 < n_of (quotient a s)"
    unfolding quotient_unfold c_def [symmetric] using two by (simp add: del obs)
  show "i_of (quotient a s) \<noteq> -1" if i: "i_of a \<noteq> -1"
  proof -
    have ini: "0 \<le> i_of a" "nat (i_of a) < n_of a"
      using w i by (auto simp: wf_def wf_init_def)
    define p where "p = nat (i_of a)"
    have p: "p < ?N" "p \<noteq> n_of a" using ini by (simp_all add: p_def)
    have ir: "i_of (classes_automaton a s) = int (class_of s ! p)" using i by (simp add: obs p_def)
    show ?thesis
    proof (cases "hi s c = lo s c + 1")
      case False
      then show ?thesis unfolding quotient_unfold c_def [symmetric] by (simp add: ir)
    next
      case True
      have "class_of s ! p \<noteq> c"
      proof
        assume eq: "class_of s ! p = c"
        have "lo s c \<le> partition_of s ! p" "partition_of s ! p < hi s c"
          using classes_okD(5,6) [OF ok p(1)] eq by simp_all
        moreover have "lo s c \<le> partition_of s ! n_of a" "partition_of s ! n_of a < hi s c"
          using classes_okD(5,6) [OF ok, of "n_of a"] by (simp_all add: c_def)
        ultimately have "partition_of s ! p = partition_of s ! n_of a" using True by simp
        then show False using perm_ok_inj [OF pm p(1), of "n_of a"] p(2) by simp
      qed
      then show ?thesis
        unfolding quotient_unfold c_def [symmetric] using True
        by (simp add: del(3) ir ge01_def)
    qed
  qed
qed

text \<open>\<^verbatim>\<open>Minimise\<close> returns a well-formed automaton over the same alphabet, with an initial
  state if the automaton has one.\<close>

lemma Minimise_wf:
  assumes "wf a" "0 < n_of a"
  shows "\<exists>m. Minimise a = Some m \<and> wf m \<and> na_of m = na_of a \<and> 0 < n_of m \<and>
             (i_of a \<noteq> -1 \<longrightarrow> i_of m \<noteq> -1)"
proof -
  obtain s where s: "Minimise a = Some (quotient a s)" "loop_inv (n_of a + 1) s"
    using Minimise_ends [OF assms(2)] by blast
  show ?thesis using s(1) quotient_wf [OF assms(1) s(2)] by simp
qed

subsection \<open>An automaton and itself\<close>

lemma ex_two_wf_rows: "wf ex_two"
  using ex_two_wf
  by (simp add: wf_def wf_rows_def ex_two_def n_of_def All_less_Suc numeral_2_eq_2)

text \<open>
  Claim C2. Let \<open>a\<close> be an automaton with an initial state, whose rows have \<^verbatim>\<open>na\<close> cells,
  whose targets are state indices or absent and whose finality fields are \<open>0\<close> or \<open>1\<close>.
  Called on two addresses of the store that hold \<open>a\<close> (or twice on the same address),
  with the identity dictionary on the letters of \<open>a\<close>, \<^verbatim>\<open>equalsLangages\<close> answers true,
  whether \<^verbatim>\<open>minimized\<close> is set or not.
\<close>

theorem equalsLangages_reflexive:
  assumes w: "wf a" and i: "i_of a \<noteq> -1" and h: "h p1 = a" "h p2 = a"
  shows "answer (equalsLangages h p1 p2 (identity_dict (na_of a)) minimized) = Inr True"
proof -
  have twin: "answer (equalsLangages_minimized g p1 p2 (identity_dict (na_of a))) = Inr True"
    if g: "g p1 = m" "g p2 = m" and m: "wf m" "i_of m \<noteq> -1" "na_of m = na_of a" for g m
  proof -
    have "wf_targets (g p1)" "wf_targets (g p2)" "wf_finals (g p1)" "wf_finals (g p2)" "wf_init (g p1)"
      "i_of (g p1) \<noteq> -1" "same_graph (g p1) (g p2)"
      using g m by (simp_all add: wf_def same_graph_def)
    then show ?thesis
      using equalsLangages_minimized_twin [of g p1 p2] g m(3) by (simp add: answer_def)
  qed
  have n: "0 < n_of a" using w i by (auto simp: wf_def wf_init_def)
  show ?thesis
  proof (cases minimized)
    case True
    then show ?thesis using twin [OF h w i] by (simp add: equalsLangages_def)
  next
    case False
    obtain m where m: "Minimise a = Some m" "wf m" "na_of m = na_of a" "0 < n_of m" "i_of m \<noteq> -1"
      using Minimise_wf [OF w n] i by blast
    show ?thesis
    proof (cases "p2 = p1")
      case True
      obtain m' where m': "Minimise m = Some m'" "wf m'" "na_of m' = na_of m" "i_of m' \<noteq> -1"
        using Minimise_wf [OF m(2,4)] m(5) by blast
      have "equalsLangages h p1 p2 (identity_dict (na_of a)) minimized =
            equalsLangages_minimized (h(p1 := m')) p1 p2 (identity_dict (na_of a))"
        using False True h m(1) m'(1) by (simp add: equalsLangages_def)
      then show ?thesis using twin [of "h(p1 := m')" m'] True m' m(3) by simp
    next
      case ne: False
      have "equalsLangages h p1 p2 (identity_dict (na_of a)) minimized =
            equalsLangages_minimized (h(p1 := m, p2 := m)) p1 p2 (identity_dict (na_of a))"
        using False ne h m(1) by (simp add: equalsLangages_def)
      then show ?thesis using twin [of "h(p1 := m, p2 := m)" m] ne m by simp
    qed
  qed
qed

theorem equalsLangages_reflexive_witness:
  "answer (equalsLangages (store2 ex_two ex_two) 0 1 (identity_dict 2) False) = Inr True \<and>
   answer (equalsLangages (store2 ex_two ex_two) 0 0 (identity_dict 2) False) = Inr True \<and>
   answer (equalsLangages (store2 ex_two ex_two) 0 1 (identity_dict 2) True) = Inr True"
proof -
  have na: "na_of ex_two = 2" by (simp add: ex_two_def)
  show ?thesis
    using equalsLangages_reflexive [OF ex_two_wf_rows ex_two_wf(4), of "store2 ex_two ex_two" 0 1 False]
      equalsLangages_reflexive [OF ex_two_wf_rows ex_two_wf(4), of "store2 ex_two ex_two" 0 0 False]
      equalsLangages_reflexive [OF ex_two_wf_rows ex_two_wf(4), of "store2 ex_two ex_two" 0 1 True]
    by (simp add: store2_def na)
qed

subsection \<open>Minimisation of an automaton without final state\<close>

lemma run_in_range:
  assumes "wf_targets a"
  shows "word_over a w \<Longrightarrow> -1 \<le> s \<Longrightarrow> s < int (n_of a) \<Longrightarrow>
         -1 \<le> run a s w \<and> run a s w < int (n_of a)"
proof (induction w arbitrary: s)
  case Nil
  then show ?case by simp
next
  case (Cons c w)
  show ?case
  proof (cases "s = -1")
    case True
    then show ?thesis by simp
  next
    case False
    then have "nat s < n_of a" "c < na_of a" "word_over a w"
      using Cons.prems by (simp_all add: word_over_def)
    then have "-1 \<le> get_f a (nat s) c \<and> get_f a (nat s) c < int (n_of a)"
      using assms by (simp add: wf_targets_def)
    then show ?thesis using Cons.IH [of "get_f a (nat s) c"] \<open>word_over a w\<close> False by simp
  qed
qed

lemma no_final_empty:
  assumes "wf_targets a" "wf_init a" "\<forall>s < n_of a. get_final a s = 0"
  shows "Language a = {}"
proof -
  have "\<not> accepts a w" if "word_over a w" for w
  proof -
    have "-1 \<le> run a (i_of a) w \<and> run a (i_of a) w < int (n_of a)"
      using run_in_range [OF assms(1) that] assms(2) by (simp add: wf_init_def)
    then have "run a (i_of a) w = -1 \<or> nat (run a (i_of a) w) < n_of a" by auto
    then show ?thesis using assms(3) by (auto simp: accepts_def Let_def)
  qed
  then show ?thesis by (auto simp: Language_def)
qed

text \<open>
  Claim C1 fails for an automaton without final state: the class \<open>0\<close> of the final
  states is empty, and it becomes a state of the result all the same. For the automaton
  \<open>ex_loop\<close>, with one state, \<^verbatim>\<open>Minimise\<close> returns an automaton with two states; both accept
  no word, so that an automaton with fewer states than the result accepts its language.
\<close>

theorem Minimise_not_minimal:
  "Minimise ex_loop = Some ex_loop_min \<and> n_of ex_loop = 1 \<and> n_of ex_loop_min = 2 \<and>
   na_of ex_loop_min = na_of ex_loop \<and> Language ex_loop_min = Language ex_loop"
proof -
  have "Minimise ex_loop = Some ex_loop_min" by code_simp
  moreover have "Language ex_loop = {}"
    by (rule no_final_empty)
      (simp_all add: ex_loop_def wf_targets_def wf_init_def n_of_def get_f_def get_final_def)
  moreover have "Language ex_loop_min = {}"
    by (rule no_final_empty)
      (simp_all add: ex_loop_min_def wf_targets_def wf_init_def n_of_def get_f_def get_final_def
        All_less_Suc numeral_2_eq_2)
  ultimately show ?thesis by (simp add: ex_loop_def ex_loop_min_def n_of_def)
qed

end
